theory Spec2Isabelle
  imports Main
begin

section \<open>Scopes and tokens\<close>

text \<open>
  The enumeration \<open>scope_t\<close> of \<^verbatim>\<open>redact-pdf.cc\<close>, in declaration order (the order is the
  numeric order of the enumerators).
\<close>

datatype scope_t =
  s_match | s_operator | s_text_object | s_graphics_state | s_stream | s_page

definition nestable :: "scope_t \<Rightarrow> bool" where
  "nestable scope = (scope = s_text_object \<or> scope = s_graphics_state)"

text \<open>
  Tokens are delivered by the tokenizer of the PDF library: the kind tag
  (\<open>QPDFTokenizer::token_type_e\<close>), the logical value and the raw serialized bytes.
\<close>

datatype token_type_e =
  tt_bad | tt_array_close | tt_array_open | tt_brace_close | tt_brace_open
  | tt_dict_close | tt_dict_open | tt_integer | tt_name | tt_real | tt_string
  | tt_null | tt_bool | tt_word | tt_eof | tt_space | tt_comment | tt_inline_image

record token =
  getType :: token_type_e
  getValue :: string
  getRawValue :: string

text \<open>
  The compiled pattern (\<open>std::regex\<close>) is opaque: the program only calls
  \<open>regex_search(s, _regex)\<close> and \<open>regex_replace(s, _regex, "")\<close> on it.
\<close>

record std_regex =
  regex_search :: "string \<Rightarrow> bool"
  regex_replace :: "string \<Rightarrow> string"

text \<open>
  The library services that the program calls and that are not part of its own source:
  the construction of a \<open>std::regex\<close> from the pattern text, the serialization of a
  string object (used by the two-argument token constructor for \<open>tt_string\<close>) and the
  tokenizer that \<open>filterAsContents\<close> runs over the bytes of a stream.
\<close>

record qpdf =
  regex_compile :: "string \<Rightarrow> std_regex"
  unparse_string :: "string \<Rightarrow> string"
  tokenize :: "string \<Rightarrow> token list"

definition Token_string :: "qpdf \<Rightarrow> string \<Rightarrow> token" where
  "Token_string Q v = \<lparr>getType = tt_string, getValue = v, getRawValue = unparse_string Q v\<rparr>"

section \<open>The token filter\<close>

text \<open>
  The fields of class \<open>Filter\<close>. The vector \<open>_stack\<close> is a list whose last element is
  \<open>back()\<close> and whose first element is \<open>_stack[0]\<close>; a frame is the pair (raw data, text).
  Every access to \<open>back()\<close> or \<open>_stack[0]\<close> of an empty vector is the result \<open>None\<close>.
\<close>

record Filter =
  f_regex :: std_regex
  f_scope :: scope_t
  f_redact :: bool
  f_trim :: bool
  f_stack :: "(string \<times> string) list"

definition Filter_new :: "std_regex \<Rightarrow> scope_t \<Rightarrow> Filter" where
  "Filter_new rx scope =
     \<lparr>f_regex = rx, f_scope = scope, f_redact = False, f_trim = False, f_stack = [([], [])]\<rparr>"

definition Filter_add :: "token \<Rightarrow> Filter \<Rightarrow> Filter option" where
  "Filter_add tok F =
     (if f_stack F = [] then None
      else
        let frame = last (f_stack F);
            frame1 = (fst frame @ getRawValue tok, snd frame);
            frame2 = (if getType tok = tt_string
                      then (fst frame1, snd frame1 @ getValue tok) else frame1)
        in Some (F\<lparr>f_stack := butlast (f_stack F) @ [frame2], f_trim := False\<rparr>))"

definition Filter_flush :: "Filter \<Rightarrow> Filter option" where
  "Filter_flush F =
     (if f_stack F = [] then None
      else
        let frame = last (f_stack F);
            popped = butlast (f_stack F)
        in if \<not> regex_search (f_regex F) (snd frame)
           then (if popped = [] then None
                 else
                   let top = last popped
                   in Some (F\<lparr>f_stack :=
                        butlast popped @ [(fst top @ fst frame, snd top @ snd frame)]\<rparr>))
           else Some (F\<lparr>f_stack := popped, f_redact := True, f_trim := True\<rparr>))"

definition Filter_start :: "scope_t \<Rightarrow> token \<Rightarrow> Filter \<Rightarrow> Filter option" where
  "Filter_start scope tok F =
     Filter_add tok
       (if f_scope F = scope \<and> (nestable scope \<or> length (f_stack F) = 1)
        then F\<lparr>f_stack := f_stack F @ [([], [])]\<rparr> else F)"

definition Filter_end :: "scope_t \<Rightarrow> token \<Rightarrow> Filter \<Rightarrow> Filter option" where
  "Filter_end scope tok F =
     (case Filter_add tok F of
        None \<Rightarrow> None
      | Some F1 \<Rightarrow>
          if f_scope F1 = scope \<and> length (f_stack F1) > 1 then Filter_flush F1 else Some F1)"

definition handleToken :: "qpdf \<Rightarrow> token \<Rightarrow> Filter \<Rightarrow> Filter option" where
  "handleToken Q tok F =
     (let v = getValue tok in
      case getType tok of
        tt_word \<Rightarrow>
          if v = ''BT'' then Filter_start s_text_object tok F
          else if v = ''ET'' then Filter_end s_text_object tok F
          else if v = ''q'' then Filter_start s_graphics_state tok F
          else if v = ''Q'' then Filter_end s_graphics_state tok F
          else Filter_end s_operator tok F
      | tt_space \<Rightarrow>
          (case (if \<not> f_trim F then Filter_add tok F else Some F) of
             None \<Rightarrow> None
           | Some F1 \<Rightarrow> Some (F1\<lparr>f_trim := False\<rparr>))
      | tt_string \<Rightarrow>
          if f_scope F = s_match
          then Filter_add (Token_string Q (regex_replace (f_regex F) v)) F
          else Filter_start s_operator tok F
      | _ \<Rightarrow> Filter_start s_operator tok F)"

text \<open>The loop of \<open>handleEOF\<close>: flush while more than one frame is open.\<close>

function handleEOF :: "Filter \<Rightarrow> Filter option" where
  "handleEOF F =
     (if length (f_stack F) > 1
      then (case Filter_flush F of None \<Rightarrow> None | Some F1 \<Rightarrow> handleEOF F1)
      else Some F)"
  by pat_completeness auto
termination
proof (relation "measure (\<lambda>F. length (f_stack F))")
  show "wf (measure (\<lambda>F. length (f_stack F)))" by simp
next
  fix F F1
  assume "1 < length (f_stack F)" and "Filter_flush F = Some F1"
  then show "(F1, F) \<in> measure (\<lambda>F. length (f_stack F))"
    by (auto simp: Filter_flush_def Let_def split: if_splits)
qed

declare handleEOF.simps [simp del]

definition data :: "Filter \<Rightarrow> string option" where
  "data F = (case f_stack F of [] \<Rightarrow> None | frame # _ \<Rightarrow> Some (fst frame))"

definition redact :: "Filter \<Rightarrow> bool option" where
  "redact F =
     (if f_redact F then Some True
      else case f_stack F of
             [] \<Rightarrow> None
           | frame # _ \<Rightarrow> Some (regex_search (f_regex F) (snd frame)))"

text \<open>
  The token filter is driven by the library: \<open>handleToken\<close> once per token, in stream
  order, then \<open>handleEOF\<close>.
\<close>

fun handleTokens :: "qpdf \<Rightarrow> token list \<Rightarrow> Filter \<Rightarrow> Filter option" where
  "handleTokens Q [] F = Some F"
| "handleTokens Q (tok # toks) F =
     (case handleToken Q tok F of None \<Rightarrow> None | Some F1 \<Rightarrow> handleTokens Q toks F1)"

definition run_filter :: "qpdf \<Rightarrow> token list \<Rightarrow> Filter \<Rightarrow> Filter option" where
  "run_filter Q toks F =
     (case handleTokens Q toks F of None \<Rightarrow> None | Some F1 \<Rightarrow> handleEOF F1)"

section \<open>Flush events\<close>

text \<open>
  Not part of the program: a record of what each call of \<open>_flush\<close> decides, used to
  state properties of a run. \<open>flush_event F\<close> is the decision of \<open>_flush\<close> entered in
  state \<open>F\<close> (the popped frame is merged into the frame below, or discarded), with the
  number of frames that remain on the stack after the pop. The functions below follow the
  control flow of \<open>_end\<close>, \<open>handleToken\<close> and \<open>handleEOF\<close> and collect the events
  of the calls of \<open>_flush\<close> that they make.
\<close>

datatype flush_event = Merged nat | Discarded nat

fun is_discard :: "flush_event \<Rightarrow> bool" where
  "is_discard (Discarded n) = True"
| "is_discard (Merged n) = False"

fun frames_below :: "flush_event \<Rightarrow> nat" where
  "frames_below (Discarded n) = n"
| "frames_below (Merged n) = n"

definition flush_event :: "Filter \<Rightarrow> flush_event" where
  "flush_event F =
     (let frame = last (f_stack F);
          popped = butlast (f_stack F)
      in if \<not> regex_search (f_regex F) (snd frame)
         then Merged (length popped) else Discarded (length popped))"

definition end_events :: "scope_t \<Rightarrow> token \<Rightarrow> Filter \<Rightarrow> flush_event list" where
  "end_events scope tok F =
     (case Filter_add tok F of
        None \<Rightarrow> []
      | Some F1 \<Rightarrow>
          if f_scope F1 = scope \<and> length (f_stack F1) > 1 then [flush_event F1] else [])"

definition token_events :: "token \<Rightarrow> Filter \<Rightarrow> flush_event list" where
  "token_events tok F =
     (let v = getValue tok in
      if getType tok = tt_word
      then (if v = ''BT'' then []
            else if v = ''ET'' then end_events s_text_object tok F
            else if v = ''q'' then []
            else if v = ''Q'' then end_events s_graphics_state tok F
            else end_events s_operator tok F)
      else [])"

function eof_events :: "Filter \<Rightarrow> flush_event list" where
  "eof_events F =
     (if length (f_stack F) > 1
      then flush_event F # (case Filter_flush F of None \<Rightarrow> [] | Some F1 \<Rightarrow> eof_events F1)
      else [])"
  by pat_completeness auto
termination
proof (relation "measure (\<lambda>F. length (f_stack F))")
  show "wf (measure (\<lambda>F. length (f_stack F)))" by simp
next
  fix F F1
  assume "1 < length (f_stack F)" and "Filter_flush F = Some F1"
  then show "(F1, F) \<in> measure (\<lambda>F. length (f_stack F))"
    by (auto simp: Filter_flush_def Let_def split: if_splits)
qed

declare eof_events.simps [simp del]

fun tokens_events :: "qpdf \<Rightarrow> token list \<Rightarrow> Filter \<Rightarrow> flush_event list" where
  "tokens_events Q [] F = []"
| "tokens_events Q (tok # toks) F =
     token_events tok F @
     (case handleToken Q tok F of None \<Rightarrow> [] | Some F1 \<Rightarrow> tokens_events Q toks F1)"

definition run_events :: "qpdf \<Rightarrow> token list \<Rightarrow> Filter \<Rightarrow> flush_event list" where
  "run_events Q toks F =
     tokens_events Q toks F @
     (case handleTokens Q toks F of None \<Rightarrow> [] | Some F1 \<Rightarrow> eof_events F1)"

section \<open>Text of a token sequence\<close>

text \<open>What \<open>_add\<close> appends to the text of a frame for a token.\<close>

definition tok_text :: "token \<Rightarrow> string" where
  "tok_text tok = (if getType tok = tt_string then getValue tok else [])"

section \<open>A concrete instance of the library services\<close>

text \<open>
  The theorems below hold for every pattern matcher, serializer and tokenizer. To run the
  program on concrete streams, the following instance is used: the matcher of a pattern
  without metacharacters (a match is an occurrence of the pattern as a contiguous
  substring; replacing by the empty string deletes the leftmost non-overlapping
  occurrences), the serialization of a string without special characters (the text
  between parentheses), and a tokenizer for content streams made of white space, literal
  strings without escapes or nested parentheses, and words.
\<close>

fun lit_search :: "string \<Rightarrow> string \<Rightarrow> bool" where
  "lit_search p [] = (p = [])"
| "lit_search p (c # cs) = (take (length p) (c # cs) = p \<or> lit_search p cs)"

text \<open>The counter is the number of characters of a found occurrence still to be skipped.\<close>

fun lit_replace :: "string \<Rightarrow> nat \<Rightarrow> string \<Rightarrow> string" where
  "lit_replace p k [] = []"
| "lit_replace p (Suc k) (c # cs) = lit_replace p k cs"
| "lit_replace p 0 (c # cs) =
     (if p \<noteq> [] \<and> take (length p) (c # cs) = p
      then lit_replace p (length p - 1) cs
      else c # lit_replace p 0 cs)"

definition literal_regex :: "string \<Rightarrow> std_regex" where
  "literal_regex p = \<lparr>regex_search = lit_search p, regex_replace = lit_replace p 0\<rparr>"

datatype lex_state = st_top | st_space string | st_string string | st_word string

definition is_ws :: "char \<Rightarrow> bool" where
  "is_ws c = (c = CHR '' '' \<or> c = CHR 0x0A \<or> c = CHR 0x0D \<or> c = CHR 0x09)"

definition mk_space :: "string \<Rightarrow> token" where
  "mk_space acc = \<lparr>getType = tt_space, getValue = acc, getRawValue = acc\<rparr>"

definition mk_string :: "string \<Rightarrow> token" where
  "mk_string acc = \<lparr>getType = tt_string, getValue = acc, getRawValue = ''('' @ acc @ '')''\<rparr>"

definition mk_word :: "string \<Rightarrow> token" where
  "mk_word acc = \<lparr>getType = tt_word, getValue = acc, getRawValue = acc\<rparr>"

definition mk_bad :: "string \<Rightarrow> token" where
  "mk_bad acc = \<lparr>getType = tt_bad, getValue = acc, getRawValue = ''('' @ acc\<rparr>"

definition lex_top :: "char \<Rightarrow> token list \<times> lex_state" where
  "lex_top c =
     (if is_ws c then ([], st_space [c])
      else if c = CHR ''('' then ([], st_string [])
      else ([], st_word [c]))"

fun lex_step :: "lex_state \<Rightarrow> char \<Rightarrow> token list \<times> lex_state" where
  "lex_step st_top c = lex_top c"
| "lex_step (st_space acc) c =
     (if is_ws c then ([], st_space (acc @ [c]))
      else (mk_space acc # fst (lex_top c), snd (lex_top c)))"
| "lex_step (st_string acc) c =
     (if c = CHR '')'' then ([mk_string acc], st_top) else ([], st_string (acc @ [c])))"
| "lex_step (st_word acc) c =
     (if is_ws c \<or> c = CHR ''(''
      then (mk_word acc # fst (lex_top c), snd (lex_top c))
      else ([], st_word (acc @ [c])))"

fun lex_finish :: "lex_state \<Rightarrow> token list" where
  "lex_finish st_top = []"
| "lex_finish (st_space acc) = [mk_space acc]"
| "lex_finish (st_string acc) = [mk_bad acc]"
| "lex_finish (st_word acc) = [mk_word acc]"

fun lex_run :: "lex_state \<Rightarrow> string \<Rightarrow> token list" where
  "lex_run st [] = lex_finish st"
| "lex_run st (c # cs) = fst (lex_step st c) @ lex_run (snd (lex_step st c)) cs"

definition simple_qpdf :: qpdf where
  "simple_qpdf =
     \<lparr>regex_compile = literal_regex,
      unparse_string = (\<lambda>v. ''('' @ v @ '')''),
      tokenize = lex_run st_top\<rparr>"

section \<open>Command-line arguments\<close>

text \<open>
  The pointers of \<open>args_t\<close> are \<open>None\<close> when null. \<open>SCOPE_FLAGS\<close> lists the flag letters,
  the index of a letter being the value of its enumerator.
\<close>

record args_t =
  whoami :: string
  regex :: "string option"
  infile :: "string option"
  outfile :: "string option"
  scope :: scope_t

definition SCOPE_FLAGS :: string where
  "SCOPE_FLAGS = ''motqsp''"

text \<open>\<open>std::string::find(char)\<close>: the index of the first occurrence, \<open>None\<close> for \<open>npos\<close>.\<close>

fun find_char :: "string \<Rightarrow> char \<Rightarrow> nat option" where
  "find_char [] c = None"
| "find_char (x # xs) c = (if x = c then Some 0 else map_option Suc (find_char xs c))"

text \<open>The conversion \<open>(scope_t) k\<close> of an index that is the value of an enumerator.\<close>

definition scope_cast :: "nat \<Rightarrow> scope_t option" where
  "scope_cast k =
     (if k < 6
      then Some ([s_match, s_operator, s_text_object, s_graphics_state, s_stream, s_page] ! k)
      else None)"

text \<open>
  \<open>argv[i][1]\<close> of a C string: the second character, or the terminating NUL of a string
  of one character.
\<close>

definition char_at_1 :: "string \<Rightarrow> char" where
  "char_at_1 a = (if length a > 1 then a ! 1 else CHR 0x00)"

text \<open>
  The outcomes of \<open>parseArgs\<close> other than its return: \<open>usage\<close> printed the usage line and
  called \<open>exit(2)\<close>. When \<open>find\<close> returns \<open>npos\<close>, the source converts \<open>npos\<close> to \<open>scope_t\<close>
  and compares the result with \<open>npos\<close>; \<open>npos\<close> is outside the range of the enumeration,
  and whether the comparison holds depends on the underlying type the compiler gives the
  enumeration. The parameter \<open>npos_detected\<close> is the result of that comparison; when it
  fails, the run continues with a scope that is no enumerator, which is the outcome
  \<open>out_of_range_scope\<close>. An \<open>argv\<close> without \<open>argv[0]\<close> is the outcome \<open>null_argv0\<close>.
\<close>

datatype parse_exit = usage | out_of_range_scope | null_argv0

fun parseArgs_loop :: "bool \<Rightarrow> string list \<Rightarrow> args_t \<Rightarrow> parse_exit + args_t" where
  "parseArgs_loop npos_detected [] args = Inr args"
| "parseArgs_loop npos_detected (a # rest) args =
     (if take 1 a = ''-''
      then (case find_char SCOPE_FLAGS (char_at_1 a) of
              None \<Rightarrow> if npos_detected then Inl usage else Inl out_of_range_scope
            | Some k \<Rightarrow>
                (case scope_cast k of
                   None \<Rightarrow> Inl out_of_range_scope
                 | Some s \<Rightarrow> parseArgs_loop npos_detected rest (args\<lparr>scope := s\<rparr>)))
      else if regex args = None then parseArgs_loop npos_detected rest (args\<lparr>regex := Some a\<rparr>)
      else if infile args = None then parseArgs_loop npos_detected rest (args\<lparr>infile := Some a\<rparr>)
      else if outfile args = None then parseArgs_loop npos_detected rest (args\<lparr>outfile := Some a\<rparr>)
      else Inl usage)"

text \<open>
  \<open>main\<close> passes \<open>args_t args{}\<close>: null pointers and scope \<open>s_match\<close> (value 0).
  \<open>getWhoami\<close> is the library function that strips the directory of \<open>argv[0]\<close>.
\<close>

definition parseArgs :: "(string \<Rightarrow> string) \<Rightarrow> bool \<Rightarrow> string list \<Rightarrow> parse_exit + args_t" where
  "parseArgs getWhoami npos_detected argv =
     (case argv of
        [] \<Rightarrow> Inl null_argv0
      | argv0 # rest \<Rightarrow>
          (case parseArgs_loop npos_detected rest
                  \<lparr>whoami = getWhoami argv0, regex = None, infile = None, outfile = None,
                   scope = s_match\<rparr> of
             Inl e \<Rightarrow> Inl e
           | Inr args \<Rightarrow>
               if regex args = None \<or> infile args = None then Inl usage else Inr args))"

section \<open>Pages, streams and form XObjects\<close>

text \<open>
  The objects of the document, by object identity. A page has its \<open>/Contents\<close> (one
  stream, or an array of streams); a stream has its data; a page or a form XObject has
  the form XObjects of its resource dictionary, in the order of iteration of
  \<open>getFormXObjects()\<close>. References are by identity and may form cycles.
\<close>

type_synonym objid = nat

datatype contents = Direct objid | Array "objid list"

record pdf_object =
  isPageObject :: bool
  Contents :: contents
  streamData :: string
  getFormXObjects :: "objid list"

type_synonym pdf = "objid \<Rightarrow> pdf_object"

definition getPageContents :: "pdf_object \<Rightarrow> objid list" where
  "getPageContents ob = (case Contents ob of Direct i \<Rightarrow> [i] | Array is \<Rightarrow> is)"

definition getContents :: "pdf \<Rightarrow> objid \<Rightarrow> objid list" where
  "getContents doc obj =
     (if isPageObject (doc obj) then getPageContents (doc obj) else [obj])"

definition setContents :: "objid \<Rightarrow> objid list \<Rightarrow> pdf \<Rightarrow> pdf" where
  "setContents obj c doc =
     (if isPageObject (doc obj)
      then doc(obj := (doc obj)\<lparr>Contents := (if length c = 1 then Direct (c ! 0) else Array c)\<rparr>)
      else doc)"

definition replaceStreamData :: "objid \<Rightarrow> string \<Rightarrow> pdf \<Rightarrow> pdf" where
  "replaceStreamData obj d doc = doc(obj := (doc obj)\<lparr>streamData := d\<rparr>)"

text \<open>\<open>filterAsContents\<close> runs the filter over the tokens of the stream; the stream is not changed.\<close>

definition filterAsContents :: "qpdf \<Rightarrow> pdf \<Rightarrow> objid \<Rightarrow> Filter \<Rightarrow> Filter option" where
  "filterAsContents Q doc obj F = run_filter Q (tokenize Q (streamData (doc obj))) F"

text \<open>
  The first loop of \<open>redactPage\<close>, over the content streams, with the vector \<open>contents\<close>
  and the document as state. \<open>bailed\<close> is the \<open>return true\<close> of the page case; \<open>crashed\<close> is
  an access outside the stack of the filter, or a null pattern.
\<close>

datatype loop_result = crashed | bailed pdf | completed "objid list" pdf

fun content_loop :: "qpdf \<Rightarrow> args_t \<Rightarrow> objid list \<Rightarrow> objid list \<Rightarrow> pdf \<Rightarrow> loop_result" where
  "content_loop Q args [] contents doc = completed contents doc"
| "content_loop Q args (obj # objs) contents doc =
     (case regex args of
        None \<Rightarrow> crashed
      | Some pattern \<Rightarrow>
          (case filterAsContents Q doc obj (Filter_new (regex_compile Q pattern) (scope args)) of
             None \<Rightarrow> crashed
           | Some flt \<Rightarrow>
               (case redact flt of
                  None \<Rightarrow> crashed
                | Some True \<Rightarrow>
                    (case scope args of
                       s_page \<Rightarrow> bailed doc
                     | s_stream \<Rightarrow> content_loop Q args objs contents doc
                     | _ \<Rightarrow>
                         (case data flt of
                            None \<Rightarrow> crashed
                          | Some d \<Rightarrow>
                              content_loop Q args objs (contents @ [obj])
                                (replaceStreamData obj d doc)))
                | Some False \<Rightarrow> content_loop Q args objs (contents @ [obj]) doc)))"

text \<open>
  \<open>redactPage\<close> calls itself from its loop over the form XObjects. The recursion is
  written as one function of two kinds of call: \<open>RedactPage page\<close> is the call
  \<open>redactPage(args, page)\<close>; \<open>FormLoop forms\<close> is the rest of the loop over the form
  XObjects \<open>forms\<close> that are still to be visited. The result \<open>None\<close> is a call that does
  not return.
\<close>

datatype call = RedactPage objid | FormLoop "objid list"

datatype result = crash | return bool pdf

partial_function (option) redactPage_calls ::
    "qpdf \<Rightarrow> args_t \<Rightarrow> call \<Rightarrow> pdf \<Rightarrow> result option" where
  "redactPage_calls Q args c doc =
     (case c of
        RedactPage page \<Rightarrow>
          (case content_loop Q args (getContents doc page) [] doc of
             crashed \<Rightarrow> Some crash
           | bailed doc1 \<Rightarrow> Some (return True doc1)
           | completed contents doc1 \<Rightarrow>
               redactPage_calls Q args
                 (FormLoop (getFormXObjects (setContents page contents doc1 page)))
                 (setContents page contents doc1))
      | FormLoop [] \<Rightarrow> Some (return False doc)
      | FormLoop (form # forms) \<Rightarrow>
          Option.bind (redactPage_calls Q args (RedactPage form) doc)
            (\<lambda>r. case r of
                   crash \<Rightarrow> Some crash
                 | return b doc1 \<Rightarrow>
                     if b then Some (return True doc1)
                     else redactPage_calls Q args (FormLoop forms) doc1))"

definition redactPage :: "qpdf \<Rightarrow> args_t \<Rightarrow> objid \<Rightarrow> pdf \<Rightarrow> result option" where
  "redactPage Q args page doc = redactPage_calls Q args (RedactPage page) doc"

section \<open>Texts of a run\<close>

text \<open>
  No text accumulated by the filter matches the pattern: no call of \<open>_flush\<close> during the
  run found a match in the text of its frame, and the text of the root frame after
  \<open>handleEOF\<close> does not match.
\<close>

definition nowhere_matches :: "qpdf \<Rightarrow> std_regex \<Rightarrow> scope_t \<Rightarrow> token list \<Rightarrow> bool" where
  "nowhere_matches Q rx sc toks =
     (case run_filter Q toks (Filter_new rx sc) of
        None \<Rightarrow> False
      | Some F \<Rightarrow>
          \<not> list_ex is_discard (run_events Q toks (Filter_new rx sc))
          \<and> \<not> list_ex (regex_search rx) (map snd (f_stack F)))"

section \<open>Assumptions on the pattern matcher\<close>



section \<open>The scope selected by the flags\<close>

text \<open>
  The table of the flags as the documentation gives it (\<open>-m\<close> match, \<open>-o\<close> operator, \<open>-t\<close>
  text object, \<open>-q\<close> graphics state, \<open>-s\<close> stream, \<open>-p\<close> page), and the scope left by a
  sequence of arguments in which each flag overwrites the scope.
\<close>

definition flag_scope :: "char \<Rightarrow> scope_t" where
  "flag_scope c =
     (if c = CHR ''m'' then s_match
      else if c = CHR ''o'' then s_operator
      else if c = CHR ''t'' then s_text_object
      else if c = CHR ''q'' then s_graphics_state
      else if c = CHR ''s'' then s_stream
      else s_page)"

fun final_scope :: "string list \<Rightarrow> scope_t \<Rightarrow> scope_t" where
  "final_scope [] s = s"
| "final_scope (a # rest) s =
     final_scope rest (if take 1 a = ''-'' then flag_scope (char_at_1 a) else s)"

section \<open>The run of the program\<close>

text \<open>
  A document is its objects and the list of its pages. The document-level services of
  the library: \<open>getWhoami\<close>, \<open>processFile\<close> on the bytes of the input (\<open>None\<close> when it
  throws), \<open>removeUnreferencedResources\<close>, and the bytes that \<open>QPDFWriter\<close> produces.
\<close>

record document =
  objects :: pdf
  getAllPages :: "objid list"

record qpdf_document =
  getWhoami :: "string \<Rightarrow> string"
  processFile :: "string \<Rightarrow> document option"
  removeUnreferencedResources :: "document \<Rightarrow> document"
  serialize :: "document \<Rightarrow> string"

definition removePage :: "objid \<Rightarrow> document \<Rightarrow> document" where
  "removePage page D = D\<lparr>getAllPages := remove1 page (getAllPages D)\<rparr>"

text \<open>
  The loop of \<open>main\<close> over the pages that \<open>getAllPages()\<close> returned, with the document as
  state; \<open>None\<close> when a call of \<open>redactPage\<close> does not return.
\<close>

datatype pages_result = pages_crashed | pages_done document

fun page_loop :: "qpdf \<Rightarrow> args_t \<Rightarrow> objid list \<Rightarrow> document \<Rightarrow> pages_result option" where
  "page_loop Q args [] D = Some (pages_done D)"
| "page_loop Q args (page # pages) D =
     Option.bind (redactPage Q args page (objects D))
       (\<lambda>r. case r of
              crash \<Rightarrow> Some pages_crashed
            | return b doc1 \<Rightarrow>
                page_loop Q args pages
                  (if b then removePage page (D\<lparr>objects := doc1\<rparr>) else D\<lparr>objects := doc1\<rparr>))"

text \<open>
  The files, by path. What the environment decides during a run: whether the writer
  writes all the bytes, cannot open its file, or fails after some bytes; whether
  \<open>remove_file\<close> and \<open>rename_file\<close> fail. Each failure is an exception in the source, which
  \<open>main\<close> catches to print a message and call \<open>exit(2)\<close>: the writer returns \<open>Inl\<close> with
  the files it leaves when it throws, the other two return \<open>None\<close> and leave the files.
\<close>

type_synonym files = "string \<Rightarrow> string option"

datatype write_outcome = written | open_failed | failed_after nat

record environment =
  write_outcome :: write_outcome
  remove_fails :: bool
  rename_fails :: bool

definition writer_write :: "write_outcome \<Rightarrow> string \<Rightarrow> string \<Rightarrow> files \<Rightarrow> files + files" where
  "writer_write w path bytes fs =
     (case w of
        written \<Rightarrow> Inr (fs(path \<mapsto> bytes))
      | open_failed \<Rightarrow> Inl fs
      | failed_after n \<Rightarrow> Inl (fs(path \<mapsto> take n bytes)))"

definition remove_file :: "bool \<Rightarrow> string \<Rightarrow> files \<Rightarrow> files option" where
  "remove_file fails path fs =
     (if fails \<or> fs path = None then None else Some (fs(path := None)))"

definition rename_file :: "bool \<Rightarrow> string \<Rightarrow> string \<Rightarrow> files \<Rightarrow> files option" where
  "rename_file fails oldname newname fs =
     (if fails \<or> fs oldname = None then None
      else Some (fs(newname := fs oldname, oldname := None)))"

text \<open>
  \<open>main\<close>: the exit status and the files at exit. \<open>undefined_run\<close> is a run that left the
  defined behaviour of the program (see \<open>parseArgs\<close> and the filter); \<open>None\<close> is a run
  that does not end. The pattern is taken to be one that \<open>std::regex\<close> accepts.
\<close>

datatype run = exited nat files | undefined_run

definition main ::
    "qpdf \<Rightarrow> qpdf_document \<Rightarrow> environment \<Rightarrow> bool \<Rightarrow> string list \<Rightarrow> files \<Rightarrow> run option" where
  "main Q L env npos_detected argv fs =
     (case parseArgs (getWhoami L) npos_detected argv of
        Inl e \<Rightarrow> if e = usage then Some (exited 2 fs) else Some undefined_run
      | Inr args \<Rightarrow>
          (case infile args of
             None \<Rightarrow> Some undefined_run
           | Some inpath \<Rightarrow>
               (case Option.bind (fs inpath) (processFile L) of
                  None \<Rightarrow> Some (exited 2 fs)
                | Some D \<Rightarrow>
                    Option.bind (page_loop Q args (getAllPages D) D)
                      (\<lambda>r. case r of
                             pages_crashed \<Rightarrow> Some undefined_run
                           | pages_done D1 \<Rightarrow>
                               (let D2 = removeUnreferencedResources L D1;
                                    out = (case outfile args of
                                             Some path \<Rightarrow> path
                                           | None \<Rightarrow> inpath @ ''~'')
                                in case writer_write (write_outcome env) out (serialize L D2) fs of
                                     Inl fs1 \<Rightarrow> Some (exited 2 fs1)
                                   | Inr fs1 \<Rightarrow>
                                       if outfile args = None
                                       then (case remove_file (remove_fails env) inpath fs1 of
                                               None \<Rightarrow> Some (exited 2 fs1)
                                             | Some fs2 \<Rightarrow>
                                                 (case rename_file (rename_fails env) out inpath fs2 of
                                                    None \<Rightarrow> Some (exited 2 fs2)
                                                  | Some fs3 \<Rightarrow> Some (exited 0 fs3)))
                                       else Some (exited 0 fs1))))))"

section \<open>The tokens held by the frames\<close>

text \<open>
  Not part of the program: a record of where the tokens of the input went. For every frame
  of the stack it lists the positions (in the input sequence) of the tokens whose bytes the
  frame holds, in \<open>t_discarded\<close> the frames that \<open>_flush\<close> discarded, and in \<open>t_skipped\<close> the
  white-space tokens that \<open>handleToken\<close> did not append because \<open>_trim\<close> was set. The
  functions below follow the control flow of the filter, with the filter's state before the
  call as argument.
\<close>

record trace =
  t_frames :: "nat list list"
  t_discarded :: "nat list list"
  t_skipped :: "nat list"

definition trace_new :: trace where
  "trace_new = \<lparr>t_frames = [[]], t_discarded = [], t_skipped = []\<rparr>"

definition trace_add :: "nat \<Rightarrow> trace \<Rightarrow> trace" where
  "trace_add i T = T\<lparr>t_frames := butlast (t_frames T) @ [last (t_frames T) @ [i]]\<rparr>"

definition trace_flush :: "Filter \<Rightarrow> trace \<Rightarrow> trace" where
  "trace_flush F T =
     (let frame = last (t_frames T); popped = butlast (t_frames T) in
      if \<not> regex_search (f_regex F) (snd (last (f_stack F)))
      then T\<lparr>t_frames := butlast popped @ [last popped @ frame]\<rparr>
      else T\<lparr>t_frames := popped, t_discarded := t_discarded T @ [frame]\<rparr>)"

definition trace_start :: "scope_t \<Rightarrow> nat \<Rightarrow> Filter \<Rightarrow> trace \<Rightarrow> trace" where
  "trace_start sc i F T =
     trace_add i (if f_scope F = sc \<and> (nestable sc \<or> length (f_stack F) = 1)
                  then T\<lparr>t_frames := t_frames T @ [[]]\<rparr> else T)"

definition trace_end :: "scope_t \<Rightarrow> nat \<Rightarrow> token \<Rightarrow> Filter \<Rightarrow> trace \<Rightarrow> trace" where
  "trace_end sc i tok F T =
     (case Filter_add tok F of
        None \<Rightarrow> T
      | Some F1 \<Rightarrow>
          if f_scope F1 = sc \<and> length (f_stack F1) > 1
          then trace_flush F1 (trace_add i T) else trace_add i T)"

definition trace_token :: "nat \<Rightarrow> token \<Rightarrow> Filter \<Rightarrow> trace \<Rightarrow> trace" where
  "trace_token i tok F T =
     (let v = getValue tok in
      case getType tok of
        tt_word \<Rightarrow>
          (if v = ''BT'' then trace_start s_text_object i F T
           else if v = ''ET'' then trace_end s_text_object i tok F T
           else if v = ''q'' then trace_start s_graphics_state i F T
           else if v = ''Q'' then trace_end s_graphics_state i tok F T
           else trace_end s_operator i tok F T)
      | tt_space \<Rightarrow>
          (if \<not> f_trim F then trace_add i T else T\<lparr>t_skipped := t_skipped T @ [i]\<rparr>)
      | tt_string \<Rightarrow>
          (if f_scope F = s_match then trace_add i T else trace_start s_operator i F T)
      | _ \<Rightarrow> trace_start s_operator i F T)"

function trace_eof :: "Filter \<Rightarrow> trace \<Rightarrow> trace" where
  "trace_eof F T =
     (if length (f_stack F) > 1
      then (case Filter_flush F of None \<Rightarrow> T | Some F1 \<Rightarrow> trace_eof F1 (trace_flush F T))
      else T)"
  by pat_completeness auto

termination
proof (relation "measure (\<lambda>(F, T). length (f_stack F))")
  show "wf (measure (\<lambda>(F, T). length (f_stack F)))" by simp
next
  fix F :: Filter and T :: trace and F1
  assume "1 < length (f_stack F)" and "Filter_flush F = Some F1"
  then show "((F1, trace_flush F T), (F, T)) \<in> measure (\<lambda>(F, T). length (f_stack F))"
    by (auto simp: Filter_flush_def Let_def split: if_splits)
qed

declare trace_eof.simps [simp del]

fun trace_tokens :: "qpdf \<Rightarrow> nat \<Rightarrow> token list \<Rightarrow> Filter \<Rightarrow> trace \<Rightarrow> trace" where
  "trace_tokens Q i [] F T = T"
| "trace_tokens Q i (tok # toks) F T =
     (case handleToken Q tok F of
        None \<Rightarrow> T
      | Some F1 \<Rightarrow> trace_tokens Q (Suc i) toks F1 (trace_token i tok F T))"

definition trace_run :: "qpdf \<Rightarrow> token list \<Rightarrow> Filter \<Rightarrow> trace" where
  "trace_run Q toks F =
     (case handleTokens Q toks F of
        None \<Rightarrow> trace_tokens Q 0 toks F trace_new
      | Some F1 \<Rightarrow> trace_eof F1 (trace_tokens Q 0 toks F trace_new))"

text \<open>
  The token that \<open>handleToken\<close> hands to \<open>_add\<close> for an input token: at match scope a string
  token is replaced by the token made from its redacted value.
\<close>

definition emitted :: "qpdf \<Rightarrow> std_regex \<Rightarrow> scope_t \<Rightarrow> token \<Rightarrow> token" where
  "emitted Q rx sc tok =
     (if getType tok = tt_string \<and> sc = s_match
      then Token_string Q (regex_replace rx (getValue tok)) else tok)"

text \<open>The bytes and the text of a frame that holds the tokens at the given positions.\<close>

definition frame_of :: "(nat \<Rightarrow> token) \<Rightarrow> nat list \<Rightarrow> string \<times> string" where
  "frame_of em ps = (concat (map (\<lambda>i. getRawValue (em i)) ps),
                     concat (map (\<lambda>i. tok_text (em i)) ps))"

text \<open>
  Every position below \<open>n\<close> is in a frame of the stack, in a discarded frame or skipped,
  and the positions in the frames of the stack are in increasing order from the root up.
\<close>

definition accounted :: "nat \<Rightarrow> trace \<Rightarrow> bool" where
  "accounted n T =
     (sorted_wrt (<) (concat (t_frames T))
      \<and> set (concat (t_frames T)) \<union> set (concat (t_discarded T)) \<union> set (t_skipped T) = {..<n}
      \<and> set (concat (t_frames T)) \<inter> (set (concat (t_discarded T)) \<union> set (t_skipped T)) = {}
      \<and> set (concat (t_discarded T)) \<inter> set (t_skipped T) = {})"

text \<open>
  The stack of the filter holds the bytes and texts of the tokens listed for its frames,
  the text of every discarded frame matched the pattern, and \<open>_redact\<close> is set exactly when
  a frame was discarded.
\<close>

definition tracks :: "(nat \<Rightarrow> token) \<Rightarrow> nat \<Rightarrow> Filter \<Rightarrow> trace \<Rightarrow> bool" where
  "tracks em n F T =
     (f_stack F = map (frame_of em) (t_frames T) \<and> accounted n T
      \<and> list_all (\<lambda>ps. regex_search (f_regex F) (snd (frame_of em ps))) (t_discarded T)
      \<and> f_redact F = (t_discarded T \<noteq> []))"

text \<open>
  The state of the filter after the first \<open>n\<close> tokens of a sequence, and whether the call of
  \<open>handleToken\<close> for the token at position \<open>n\<close> discards a frame.
\<close>

definition state_after :: "qpdf \<Rightarrow> std_regex \<Rightarrow> scope_t \<Rightarrow> token list \<Rightarrow> nat \<Rightarrow> Filter option" where
  "state_after Q rx sc toks n = handleTokens Q (take n toks) (Filter_new rx sc)"

definition discards_at :: "qpdf \<Rightarrow> std_regex \<Rightarrow> scope_t \<Rightarrow> token list \<Rightarrow> nat \<Rightarrow> bool" where
  "discards_at Q rx sc toks n =
     (case state_after Q rx sc toks n of
        None \<Rightarrow> False
      | Some F \<Rightarrow> list_ex is_discard (token_events (toks ! n) F))"

text \<open>
  The positions of the tokens that were held by a frame when \<open>_flush\<close> discarded it, and of
  the white-space tokens that \<open>handleToken\<close> skipped, in the run over a token sequence.
\<close>

definition discarded_positions :: "qpdf \<Rightarrow> std_regex \<Rightarrow> scope_t \<Rightarrow> token list \<Rightarrow> nat set" where
  "discarded_positions Q rx sc toks
     = set (concat (t_discarded (trace_run Q toks (Filter_new rx sc))))"

definition skipped_positions :: "qpdf \<Rightarrow> std_regex \<Rightarrow> scope_t \<Rightarrow> token list \<Rightarrow> nat set" where
  "skipped_positions Q rx sc toks = set (t_skipped (trace_run Q toks (Filter_new rx sc)))"

text \<open>
  No frame other than a top frame above the root holds a string token whose value matches.
\<close>

definition settled :: "std_regex \<Rightarrow> (nat \<Rightarrow> token) \<Rightarrow> trace \<Rightarrow> bool" where
  "settled rx em T =
     (\<forall>i \<in> set (concat (if length (t_frames T) = 1 then t_frames T else butlast (t_frames T))).
        \<not> (getType (em i) = tt_string \<and> regex_search rx (getValue (em i))))"

section \<open>Documents, arguments and files of the examples\<close>

definition example_args :: "scope_t \<Rightarrow> args_t" where
  "example_args sc =
     \<lparr>whoami = ''redact-pdf'', regex = Some ''secret'', infile = Some ''in.pdf'',
      outfile = None, scope = sc\<rparr>"

text \<open>A page (object 3) whose \<open>/Contents\<close> is the stream object 4 with the given data.\<close>

definition one_stream_page :: "string \<Rightarrow> pdf" where
  "one_stream_page bytes =
     (\<lambda>i. \<lparr>isPageObject = (i = 3), Contents = Direct 4,
            streamData = (if i = 4 then bytes else []), getFormXObjects = []\<rparr>)"


text \<open>
  A page (object 3) with the content stream 4 and the form XObject 5, whose own resources
  name the form XObject 5 again: a cyclic reference.
\<close>

definition cyclic_form_page :: pdf where
  "cyclic_form_page =
     (\<lambda>i. \<lparr>isPageObject = (i = 3), Contents = Direct 4,
            streamData = (if i = 4 then ''(hello) Tj'' else if i = 5 then ''(form) Tj'' else []),
            getFormXObjects = (if i = 3 \<or> i = 5 then [5] else [])\<rparr>)"

text \<open>
  A page (object 3) with the content stream 4 and the form XObject 5, which uses the form
  XObject 6, which uses none.
\<close>

definition nested_form_page :: pdf where
  "nested_form_page =
     (\<lambda>i. \<lparr>isPageObject = (i = 3), Contents = Direct 4,
            streamData = (if i = 4 then ''(hello) Tj'' else if i = 5 then ''(form) Tj''
                          else if i = 6 then ''(secret) Tj'' else []),
            getFormXObjects = (if i = 3 then [5] else if i = 5 then [6] else [])\<rparr>)"

definition nested_form_rank :: "objid \<Rightarrow> nat" where
  "nested_form_rank i = (if i = 3 then 2 else if i = 5 then 1 else 0)"

text \<open>
  A toy instance of the document-level services for the examples: the bytes of a file
  are the content stream of the only page of the document, and conversely.
\<close>

definition toy_document :: qpdf_document where
  "toy_document =
     \<lparr>getWhoami = (\<lambda>s. s),
      processFile = (\<lambda>bytes. Some \<lparr>objects = one_stream_page bytes, getAllPages = [3]\<rparr>),
      removeUnreferencedResources = (\<lambda>D. D),
      serialize = (\<lambda>D. streamData (objects D 4))\<rparr>"

definition in_place_files :: files where
  "in_place_files = (\<lambda>path. if path = ''in.pdf'' then Some ''(hello world) Tj'' else None)"

text \<open>The files of a run in place on a document whose first operator shows the pattern.\<close>

definition in_place_secret_files :: files where
  "in_place_secret_files = (\<lambda>path. if path = ''in.pdf'' then Some ''(secret) Tj (hello) Tj'' else None)"




section \<open>The frame stack is never empty\<close>

lemma Filter_add_Some:
  assumes "f_stack F \<noteq> []"
  shows "Filter_add tok F =
    Some (F\<lparr>f_stack := butlast (f_stack F) @
              [(fst (last (f_stack F)) @ getRawValue tok,
                snd (last (f_stack F)) @ (if getType tok = tt_string then getValue tok else []))],
            f_trim := False\<rparr>)"
  using assms by (simp add: Filter_add_def Let_def)

lemma Filter_add_props:
  assumes "Filter_add tok F = Some F1"
  shows "length (f_stack F1) = length (f_stack F)" "f_stack F \<noteq> []"
    "f_scope F1 = f_scope F" "f_regex F1 = f_regex F" "f_redact F1 = f_redact F" "\<not> f_trim F1"
  using assms by (auto simp: Filter_add_def Let_def split: if_splits)

lemma Filter_flush_Some:
  assumes "length (f_stack F) > 1"
  shows "\<exists>F1. Filter_flush F = Some F1 \<and> length (f_stack F1) = length (f_stack F) - 1
     \<and> f_scope F1 = f_scope F \<and> f_regex F1 = f_regex F"
proof -
  from assms have ne: "f_stack F \<noteq> []" by auto
  from assms have ne2: "butlast (f_stack F) \<noteq> []"
    by (cases "f_stack F" rule: rev_cases) auto
  show ?thesis using ne ne2 assms
    by (auto simp: Filter_flush_def Let_def)
qed

lemma Filter_start_Some:
  assumes "f_stack F \<noteq> []"
  shows "\<exists>F1. Filter_start sc tok F = Some F1 \<and> f_stack F1 \<noteq> []
     \<and> f_scope F1 = f_scope F \<and> f_regex F1 = f_regex F"
  using assms by (auto simp: Filter_start_def Filter_add_def Let_def)

lemma Filter_end_Some:
  assumes "f_stack F \<noteq> []"
  shows "\<exists>F1. Filter_end sc tok F = Some F1 \<and> f_stack F1 \<noteq> []
     \<and> f_scope F1 = f_scope F \<and> f_regex F1 = f_regex F"
proof -
  from assms obtain F0 where a: "Filter_add tok F = Some F0"
    by (simp add: Filter_add_Some)
  note p = Filter_add_props[OF a]
  show ?thesis
  proof (cases "f_scope F0 = sc \<and> length (f_stack F0) > 1")
    case True
    then have "length (f_stack F0) > 1" by simp
    from Filter_flush_Some[OF this] obtain F1 where
      f: "Filter_flush F0 = Some F1" "length (f_stack F1) = length (f_stack F0) - 1"
         "f_scope F1 = f_scope F0" "f_regex F1 = f_regex F0" by blast
    with True have "f_stack F1 \<noteq> []" by auto
    with a f True p show ?thesis by (simp add: Filter_end_def)
  next
    case False
    with a p assms show ?thesis by (auto simp: Filter_end_def)
  qed
qed

lemma handleToken_Some:
  assumes "f_stack F \<noteq> []"
  shows "\<exists>F1. handleToken Q tok F = Some F1 \<and> f_stack F1 \<noteq> []
     \<and> f_scope F1 = f_scope F \<and> f_regex F1 = f_regex F"
proof (cases "getType tok")
  case tt_word
  then show ?thesis
    using Filter_start_Some[OF assms] Filter_end_Some[OF assms]
    by (simp add: handleToken_def Let_def)
next
  case tt_space
  then show ?thesis using assms
    by (auto simp: handleToken_def Let_def Filter_add_Some)
next
  case tt_string
  then show ?thesis
    using Filter_start_Some[OF assms] assms
    by (auto simp: handleToken_def Let_def Filter_add_Some)
qed (use Filter_start_Some[OF assms] in \<open>simp_all add: handleToken_def Let_def\<close>)

lemma handleTokens_Some:
  assumes "f_stack F \<noteq> []"
  shows "\<exists>F1. handleTokens Q toks F = Some F1 \<and> f_stack F1 \<noteq> []
     \<and> f_scope F1 = f_scope F \<and> f_regex F1 = f_regex F"
  using assms
proof (induction toks arbitrary: F)
  case Nil
  then show ?case by simp
next
  case (Cons tok toks)
  from handleToken_Some[OF Cons.prems, of Q tok] obtain F0 where
    h: "handleToken Q tok F = Some F0" "f_stack F0 \<noteq> []"
       "f_scope F0 = f_scope F" "f_regex F0 = f_regex F" by blast
  from Cons.IH[OF h(2)] h show ?case by simp
qed

lemma handleEOF_Some:
  assumes "f_stack F \<noteq> []"
  shows "\<exists>F1. handleEOF F = Some F1 \<and> length (f_stack F1) = 1
     \<and> f_scope F1 = f_scope F \<and> f_regex F1 = f_regex F"
  using assms
proof (induction "length (f_stack F)" arbitrary: F rule: less_induct)
  case less
  show ?case
  proof (cases "length (f_stack F) > 1")
    case True
    from Filter_flush_Some[OF True] obtain F0 where
      f: "Filter_flush F = Some F0" "length (f_stack F0) = length (f_stack F) - 1"
         "f_scope F0 = f_scope F" "f_regex F0 = f_regex F" by blast
    with True have "length (f_stack F0) < length (f_stack F)" "f_stack F0 \<noteq> []" by auto
    from less.hyps[OF this] f True show ?thesis
      by (subst handleEOF.simps) simp
  next
    case False
    with less.prems have "length (f_stack F) = 1"
      by (cases "f_stack F") auto
    then show ?thesis by (subst handleEOF.simps) simp
  qed
qed

section \<open>Flags and flush events\<close>

lemma Filter_flush_flags:
  assumes "Filter_flush F = Some F1"
  shows "f_redact F1 = (f_redact F \<or> is_discard (flush_event F))"
    and "f_trim F1 = (f_trim F \<or> is_discard (flush_event F))"
  using assms
  by (auto simp: Filter_flush_def flush_event_def Let_def split: if_splits)

lemma Filter_start_flags:
  assumes "Filter_start sc tok F = Some F1"
  shows "f_redact F1 = f_redact F" and "\<not> f_trim F1"
  using assms
  by (auto simp: Filter_start_def dest: Filter_add_props split: if_splits)

lemma Filter_end_flags:
  assumes "Filter_end sc tok F = Some F1"
  shows "f_redact F1 = (f_redact F \<or> list_ex is_discard (end_events sc tok F))"
    and "f_trim F1 = list_ex is_discard (end_events sc tok F)"
proof -
  from assms obtain F0 where a: "Filter_add tok F = Some F0"
    by (auto simp: Filter_end_def split: option.splits)
  note p = Filter_add_props[OF a]
  show "f_redact F1 = (f_redact F \<or> list_ex is_discard (end_events sc tok F))"
    using assms a p Filter_flush_flags[of F0 F1]
    by (auto simp: Filter_end_def end_events_def split: if_splits)
  show "f_trim F1 = list_ex is_discard (end_events sc tok F)"
    using assms a p Filter_flush_flags[of F0 F1]
    by (auto simp: Filter_end_def end_events_def split: if_splits)
qed

lemma handleToken_flags:
  assumes "handleToken Q tok F = Some F1"
  shows "f_redact F1 = (f_redact F \<or> list_ex is_discard (token_events tok F))"
    and "f_trim F1 = list_ex is_discard (token_events tok F)"
proof -
  have "f_redact F1 = (f_redact F \<or> list_ex is_discard (token_events tok F))
      \<and> f_trim F1 = list_ex is_discard (token_events tok F)"
  proof (cases "getType tok")
    case tt_word
    then show ?thesis
      using assms Filter_start_flags[of _ tok F F1] Filter_end_flags[of _ tok F F1]
      by (auto simp: handleToken_def token_events_def Let_def split: if_splits)
  next
    case tt_space
    then show ?thesis using assms
      by (auto simp: handleToken_def token_events_def Let_def
               dest: Filter_add_props split: if_splits option.splits)
  next
    case tt_string
    then show ?thesis
      using assms Filter_start_flags[of _ tok F F1]
      by (auto simp: handleToken_def token_events_def Let_def
               dest: Filter_add_props split: if_splits)
  qed (use assms Filter_start_flags[of _ tok F F1] in
        \<open>auto simp: handleToken_def token_events_def Let_def\<close>)
  then show "f_redact F1 = (f_redact F \<or> list_ex is_discard (token_events tok F))"
    and "f_trim F1 = list_ex is_discard (token_events tok F)" by simp_all
qed

lemma handleTokens_redact:
  assumes "handleTokens Q toks F = Some F1"
  shows "f_redact F1 = (f_redact F \<or> list_ex is_discard (tokens_events Q toks F))"
  using assms
proof (induction toks arbitrary: F)
  case Nil
  then show ?case by simp
next
  case (Cons tok toks)
  from Cons.prems obtain F0 where
    h: "handleToken Q tok F = Some F0" "handleTokens Q toks F0 = Some F1"
    by (auto split: option.splits)
  from Cons.IH[OF h(2)] handleToken_flags(1)[OF h(1)] h(1)
  show ?case by auto
qed

lemma handleEOF_redact:
  assumes "handleEOF F = Some F1"
  shows "f_redact F1 = (f_redact F \<or> list_ex is_discard (eof_events F))"
  using assms
proof (induction F rule: handleEOF.induct)
  case (1 F)
  show ?case
  proof (cases "length (f_stack F) > 1")
    case True
    with "1.prems" obtain F0 where
      f: "Filter_flush F = Some F0" "handleEOF F0 = Some F1"
      by (subst (asm) handleEOF.simps) (auto split: option.splits)
    from "1.IH"[OF True f(1) f(2)] Filter_flush_flags(1)[OF f(1)] True f(1)
    show ?thesis by (subst eof_events.simps) auto
  next
    case False
    with "1.prems" have "F1 = F" by (subst (asm) handleEOF.simps) simp
    with False show ?thesis by (subst eof_events.simps) simp
  qed
qed

lemma run_filter_redact:
  assumes "run_filter Q toks F = Some F1"
  shows "f_redact F1 = (f_redact F \<or> list_ex is_discard (run_events Q toks F))"
proof -
  from assms obtain F0 where
    h: "handleTokens Q toks F = Some F0" "handleEOF F0 = Some F1"
    by (auto simp: run_filter_def split: option.splits)
  from handleTokens_redact[OF h(1)] handleEOF_redact[OF h(2)] h(1)
  show ?thesis by (auto simp: run_events_def)
qed

lemma run_filter_Some:
  assumes "f_stack F \<noteq> []"
  shows "\<exists>F1. run_filter Q toks F = Some F1 \<and> length (f_stack F1) = 1
     \<and> f_scope F1 = f_scope F \<and> f_regex F1 = f_regex F"
proof -
  from handleTokens_Some[OF assms, of Q toks] obtain F0 where
    h: "handleTokens Q toks F = Some F0" "f_stack F0 \<noteq> []"
       "f_scope F0 = f_scope F" "f_regex F0 = f_regex F" by blast
  from handleEOF_Some[OF h(2)] h show ?thesis by (simp add: run_filter_def)
qed

lemma end_events_below:
  "list_all (\<lambda>e. frames_below e > 0) (end_events sc tok F)"
  by (cases "Filter_add tok F")
     (auto simp: end_events_def flush_event_def Let_def)

lemma token_events_below:
  "list_all (\<lambda>e. 0 < frames_below e) (token_events tok F)"
  using end_events_below[of _ tok F]
  by (simp add: token_events_def Let_def)

lemma tokens_events_below:
  "list_all (\<lambda>e. 0 < frames_below e) (tokens_events Q toks F)"
proof (induction toks arbitrary: F)
  case Nil
  then show ?case by simp
next
  case (Cons tok toks)
  then show ?case
    using token_events_below[of tok F]
    by (cases "handleToken Q tok F") simp_all
qed

lemma eof_events_below:
  "list_all (\<lambda>e. 0 < frames_below e) (eof_events F)"
proof (induction F rule: eof_events.induct)
  case (1 F)
  show ?case
  proof (cases "length (f_stack F) > 1")
    case True
    then have "0 < frames_below (flush_event F)"
      by (simp add: flush_event_def Let_def)
    with True "1.IH" show ?thesis
      by (subst eof_events.simps) (cases "Filter_flush F"; simp)
  next
    case False
    then show ?thesis by (subst eof_events.simps) simp
  qed
qed

lemma run_events_below:
  "list_all (\<lambda>e. 0 < frames_below e) (run_events Q toks F)"
  using tokens_events_below[of Q toks F] eof_events_below
  by (cases "handleTokens Q toks F") (simp_all add: run_events_def)

lemma data_redact_defined:
  assumes "f_stack F \<noteq> []"
  shows "data F \<noteq> None" and "redact F \<noteq> None"
proof -
  from assms obtain frame rest where "f_stack F = frame # rest"
    by (cases "f_stack F") auto
  then show "data F \<noteq> None" and "redact F \<noteq> None"
    by (auto simp: data_def redact_def)
qed

text \<open>
  C8: for every pattern, every target scope and every token sequence, each call of
  \<open>handleToken\<close> and the final \<open>handleEOF\<close> return without an out-of-bounds access, the
  stack holds at least one frame after every token and exactly the root frame after
  \<open>handleEOF\<close>, \<open>data()\<close> and \<open>redact()\<close> find \<open>_stack[0]\<close>, and every call of \<open>_flush\<close>
  made during the run leaves at least one frame below the popped one.
\<close>

theorem stack_never_empty:
  "\<exists>F1 F2. handleTokens Q toks (Filter_new rx sc) = Some F1 \<and> f_stack F1 \<noteq> []
      \<and> handleEOF F1 = Some F2 \<and> length (f_stack F2) = 1
      \<and> data F2 \<noteq> None \<and> redact F2 \<noteq> None
      \<and> list_all (\<lambda>e. 0 < frames_below e) (run_events Q toks (Filter_new rx sc))"
proof -
  have ne: "f_stack (Filter_new rx sc) \<noteq> []" by (simp add: Filter_new_def)
  from handleTokens_Some[OF ne, of Q toks] obtain F1 where
    h1: "handleTokens Q toks (Filter_new rx sc) = Some F1" "f_stack F1 \<noteq> []" by blast
  from handleEOF_Some[OF h1(2)] obtain F2 where
    h2: "handleEOF F1 = Some F2" "length (f_stack F2) = 1" by blast
  then have "f_stack F2 \<noteq> []" by auto
  note d = data_redact_defined[OF this]
  note e = run_events_below[of Q toks "Filter_new rx sc"]
  show ?thesis
    by (rule exI[of _ F1], rule exI[of _ F2]) (simp add: h1 h2 d e)
qed

section \<open>Stream and page scope\<close>

lemma wide_handleToken_eq:
  assumes "f_scope F = s_stream \<or> f_scope F = s_page"
    and "f_stack F = [(d, t)]" and "\<not> f_trim F"
  shows "handleToken Q tok F =
      Some (F\<lparr>f_stack := [(d @ getRawValue tok, t @ tok_text tok)], f_trim := False\<rparr>)"
    and "token_events tok F = []"
proof -
  have add: "Filter_add tok F =
      Some (F\<lparr>f_stack := [(d @ getRawValue tok, t @ tok_text tok)], f_trim := False\<rparr>)"
    using assms by (simp add: Filter_add_def Let_def tok_text_def)
  have start: "Filter_start sc tok F = Filter_add tok F"
    if "sc \<noteq> s_stream" "sc \<noteq> s_page" for sc
    using assms that by (auto simp: Filter_start_def)
  have end': "Filter_end sc tok F = Filter_add tok F" "end_events sc tok F = []"
    if "sc \<noteq> s_stream" "sc \<noteq> s_page" for sc
    using assms that by (auto simp: Filter_end_def end_events_def add)
  have nm: "f_scope F \<noteq> s_match" using assms(1) by auto
  show "handleToken Q tok F =
      Some (F\<lparr>f_stack := [(d @ getRawValue tok, t @ tok_text tok)], f_trim := False\<rparr>)"
    unfolding handleToken_def Let_def
    by (cases "getType tok") (simp_all add: start end' add nm assms(3))
  show "token_events tok F = []"
    unfolding token_events_def Let_def by (simp add: end')
qed

lemma wide_handleTokens:
  assumes "f_scope F = s_stream \<or> f_scope F = s_page"
    and "f_stack F = [(d, t)]" and "\<not> f_trim F"
  shows "\<exists>F1. handleTokens Q toks F = Some F1
     \<and> f_stack F1 = [(d @ concat (map getRawValue toks), t @ concat (map tok_text toks))]
     \<and> \<not> f_trim F1
     \<and> f_redact F1 = f_redact F \<and> f_scope F1 = f_scope F \<and> f_regex F1 = f_regex F
     \<and> tokens_events Q toks F = []"
  using assms
proof (induction toks arbitrary: F d t)
  case Nil
  then show ?case by simp
next
  case (Cons tok toks)
  define F0 where
    "F0 = F\<lparr>f_stack := [(d @ getRawValue tok, t @ tok_text tok)], f_trim := False\<rparr>"
  from wide_handleToken_eq[OF Cons.prems] have
    h: "handleToken Q tok F = Some F0"
       "f_stack F0 = [(d @ getRawValue tok, t @ tok_text tok)]" "\<not> f_trim F0"
       "f_redact F0 = f_redact F" "f_scope F0 = f_scope F" "f_regex F0 = f_regex F"
       "token_events tok F = []" by (simp_all add: F0_def)
  from h(5) Cons.prems(1) have sc: "f_scope F0 = s_stream \<or> f_scope F0 = s_page" by simp
  from Cons.IH[OF sc h(2) h(3)] h show ?case by auto
qed

lemma handleEOF_single:
  assumes "length (f_stack F) = 1"
  shows "handleEOF F = Some F" and "eof_events F = []"
proof -
  show "handleEOF F = Some F" using assms by (subst handleEOF.simps) simp
  show "eof_events F = []" using assms by (subst eof_events.simps) simp
qed

lemma wide_run_filter:
  assumes "sc = s_stream \<or> sc = s_page"
  shows "\<exists>F. run_filter Q toks (Filter_new rx sc) = Some F
     \<and> f_stack F = [(concat (map getRawValue toks), concat (map tok_text toks))]
     \<and> \<not> f_trim F \<and> \<not> f_redact F \<and> f_scope F = sc \<and> f_regex F = rx
     \<and> run_events Q toks (Filter_new rx sc) = []"
proof -
  let ?F0 = "Filter_new rx sc"
  have a: "f_scope ?F0 = s_stream \<or> f_scope ?F0 = s_page" "f_stack ?F0 = [([], [])]"
       "\<not> f_trim ?F0"
    using assms by (simp_all add: Filter_new_def)
  from wide_handleTokens[OF a, of Q toks] obtain F1 where
    h: "handleTokens Q toks ?F0 = Some F1"
       "f_stack F1 = [(concat (map getRawValue toks), concat (map tok_text toks))]"
       "\<not> f_trim F1" "f_redact F1 = f_redact ?F0" "f_scope F1 = f_scope ?F0"
       "f_regex F1 = f_regex ?F0" "tokens_events Q toks ?F0 = []" by auto
  from h(2) have "length (f_stack F1) = 1" by simp
  from handleEOF_single[OF this] h show ?thesis
    by (simp add: run_filter_def run_events_def Filter_new_def)
qed

text \<open>
  C9: when the target scope is stream or page, after every token the stack holds the
  root frame alone and the trimming flag is clear, no frame is ever flushed, and after
  \<open>handleEOF\<close> the output \<open>data()\<close> is the concatenation of the raw bytes of all the input
  tokens; the verdict is the test of the concatenated string values.
\<close>

theorem wide_scope_passes_through:
  assumes "sc = s_stream \<or> sc = s_page"
  shows "\<exists>F1 F2. handleTokens Q toks (Filter_new rx sc) = Some F1
      \<and> length (f_stack F1) = 1 \<and> \<not> f_trim F1
      \<and> run_filter Q toks (Filter_new rx sc) = Some F2
      \<and> length (f_stack F2) = 1 \<and> \<not> f_trim F2
      \<and> run_events Q toks (Filter_new rx sc) = []
      \<and> data F2 = Some (concat (map getRawValue toks))
      \<and> redact F2 = Some (regex_search rx (concat (map tok_text toks)))"
proof -
  let ?F0 = "Filter_new rx sc"
  have a: "f_scope ?F0 = s_stream \<or> f_scope ?F0 = s_page" "f_stack ?F0 = [([], [])]"
       "\<not> f_trim ?F0"
    using assms by (simp_all add: Filter_new_def)
  from wide_handleTokens[OF a, of Q toks] obtain F1 where
    h1: "handleTokens Q toks ?F0 = Some F1" "length (f_stack F1) = 1" "\<not> f_trim F1"
    by auto
  from wide_run_filter[OF assms, of Q toks rx] obtain F2 where
    h2: "run_filter Q toks ?F0 = Some F2"
        "f_stack F2 = [(concat (map getRawValue toks), concat (map tok_text toks))]"
        "\<not> f_trim F2" "\<not> f_redact F2" "f_regex F2 = rx"
        "run_events Q toks ?F0 = []" by blast
  from h2 have "data F2 = Some (concat (map getRawValue toks))"
    "redact F2 = Some (regex_search rx (concat (map tok_text toks)))"
    "length (f_stack F2) = 1"
    by (simp_all add: data_def redact_def)
  with h1 h2 show ?thesis by blast
qed

theorem wide_scope_passes_through_witness:
  "(s_page = s_stream \<or> s_page = s_page) \<and>
   (\<exists>F2. run_filter simple_qpdf (tokenize simple_qpdf ''BT (secret) Tj ET'')
            (Filter_new (literal_regex ''secret'') s_page) = Some F2
      \<and> data F2 = Some ''BT (secret) Tj ET'' \<and> redact F2 = Some True)"
proof -
  have s: "s_page = s_stream \<or> s_page = s_page" by simp
  have t: "tokenize simple_qpdf ''BT (secret) Tj ET'' =
      [mk_word ''BT'', mk_space '' '', mk_string ''secret'', mk_space '' '',
       mk_word ''Tj'', mk_space '' '', mk_word ''ET'']"
    by (simp add: simple_qpdf_def lex_top_def is_ws_def)
  have r: "concat (map getRawValue (tokenize simple_qpdf ''BT (secret) Tj ET''))
       = ''BT (secret) Tj ET''"
    unfolding t by (simp add: mk_word_def mk_space_def mk_string_def)
  have x: "regex_search (literal_regex ''secret'')
       (concat (map tok_text (tokenize simple_qpdf ''BT (secret) Tj ET''))) = True"
    unfolding t by (simp add: mk_word_def mk_space_def mk_string_def tok_text_def
        literal_regex_def)
  from wide_scope_passes_through[OF s, of simple_qpdf
      "tokenize simple_qpdf ''BT (secret) Tj ET''" "literal_regex ''secret''"]
  obtain F2 where
    "run_filter simple_qpdf (tokenize simple_qpdf ''BT (secret) Tj ET'')
       (Filter_new (literal_regex ''secret'') s_page) = Some F2"
    "data F2 = Some (concat (map getRawValue (tokenize simple_qpdf ''BT (secret) Tj ET'')))"
    "redact F2 = Some (regex_search (literal_regex ''secret'')
       (concat (map tok_text (tokenize simple_qpdf ''BT (secret) Tj ET''))))"
    by blast
  then show ?thesis unfolding r x using s by (intro conjI exI[of _ F2])
qed

section \<open>Evaluation of the concrete instance\<close>

lemma literal_regex_simps:
  "regex_search (literal_regex p) = lit_search p"
  "regex_replace (literal_regex p) = lit_replace p 0"
  by (simp_all add: literal_regex_def)

lemma simple_qpdf_simps:
  "regex_compile simple_qpdf = literal_regex"
  "unparse_string simple_qpdf v = ''('' @ v @ '')''"
  "tokenize simple_qpdf = lex_run st_top"
  by (simp_all add: simple_qpdf_def)

lemmas token_simps = mk_space_def mk_string_def mk_word_def mk_bad_def Token_string_def
  tok_text_def

lemmas lex_simps = simple_qpdf_simps lex_top_def is_ws_def

lemmas filter_simps = Filter_new_def Filter_add_def Filter_flush_def Filter_start_def
  Filter_end_def handleToken_def handleEOF.simps run_filter_def nestable_def Let_def
  data_def redact_def literal_regex_simps

lemmas event_simps = flush_event_def end_events_def token_events_def eof_events.simps
  run_events_def

section \<open>The verdict\<close>

text \<open>
  C2 (as the code has it): after \<open>handleEOF\<close> the verdict \<open>redact()\<close> is positive exactly
  when the text of the root frame matches the pattern or some call of \<open>_flush\<close> during
  the run discarded its frame; every discarded frame had a frame below it.
\<close>

theorem verdict_records_every_discard:
  "\<exists>F root. run_filter Q toks (Filter_new rx sc) = Some F \<and> f_stack F = [root]
      \<and> redact F = Some (regex_search rx (snd root)
            \<or> list_ex is_discard (run_events Q toks (Filter_new rx sc)))
      \<and> list_all (\<lambda>e. 0 < frames_below e) (run_events Q toks (Filter_new rx sc))"
proof -
  let ?F0 = "Filter_new rx sc"
  have ne: "f_stack ?F0 \<noteq> []" by (simp add: Filter_new_def)
  from run_filter_Some[OF ne, of Q toks] obtain F where
    r: "run_filter Q toks ?F0 = Some F" "length (f_stack F) = 1" "f_regex F = f_regex ?F0"
    by blast
  from r(2) obtain root where st: "f_stack F = [root]"
    by (cases "f_stack F") auto
  have rx: "f_regex F = rx" using r(3) by (simp add: Filter_new_def)
  have "f_redact F = list_ex is_discard (run_events Q toks ?F0)"
    using run_filter_redact[OF r(1)] by (simp add: Filter_new_def)
  then have v: "redact F = Some (regex_search rx (snd root)
            \<or> list_ex is_discard (run_events Q toks ?F0))"
    using st rx by (auto simp: redact_def)
  note e = run_events_below[of Q toks ?F0]
  show ?thesis
    by (rule exI[of _ F], rule exI[of _ root]) (simp add: r(1) st v e)
qed

text \<open>
  The claim as stated fails: at operator scope, on \<open>(secret) Tj\<close>, the only flush of the
  run discards a frame that has the root frame below it; the text of the root frame is
  empty and does not match, and the verdict is positive.
\<close>

theorem verdict_counterexample:
  "run_events simple_qpdf [mk_string ''secret'', mk_space '' '', mk_word ''Tj'']
      (Filter_new (literal_regex ''secret'') s_operator) = [Discarded 1]
   \<and> run_filter simple_qpdf [mk_string ''secret'', mk_space '' '', mk_word ''Tj'']
      (Filter_new (literal_regex ''secret'') s_operator)
      = Some \<lparr>f_regex = literal_regex ''secret'', f_scope = s_operator, f_redact = True,
              f_trim = True, f_stack = [([], [])]\<rparr>
   \<and> \<not> regex_search (literal_regex ''secret'') []
   \<and> redact \<lparr>f_regex = literal_regex ''secret'', f_scope = s_operator, f_redact = True,
              f_trim = True, f_stack = [([], [])]\<rparr> = Some True"
  by (simp add: filter_simps event_simps token_simps)

section \<open>White space after a discard\<close>

lemma handleToken_space:
  assumes "getType s = tt_space" and "f_stack F \<noteq> []"
  shows "handleToken Q s F = (if f_trim F then Some (F\<lparr>f_trim := False\<rparr>) else Filter_add s F)"
  using assms by (simp add: handleToken_def Let_def Filter_add_Some)

lemma frame_of_snoc:
  "frame_of em (ps @ [i])
     = (fst (frame_of em ps) @ getRawValue (em i), snd (frame_of em ps) @ tok_text (em i))"
  by (simp add: frame_of_def)

lemma frame_of_append:
  "frame_of em (ps @ qs)
     = (fst (frame_of em ps) @ fst (frame_of em qs), snd (frame_of em ps) @ snd (frame_of em qs))"
  by (simp add: frame_of_def)

lemma frame_of_Nil: "frame_of em [] = ([], [])"
  by (simp add: frame_of_def)

lemma trace_add_link:
  assumes "f_stack F = map (frame_of em) (t_frames T)" and "Filter_add (em i) F = Some F1"
  shows "f_stack F1 = map (frame_of em) (t_frames (trace_add i T))"
proof -
  from assms(2) have ne: "f_stack F \<noteq> []" by (auto simp: Filter_add_def split: if_splits)
  with assms(1) have tne: "t_frames T \<noteq> []" by auto
  have l: "last (f_stack F) = frame_of em (last (t_frames T))"
    using assms(1) tne by (simp add: last_map)
  have b: "butlast (f_stack F) = map (frame_of em) (butlast (t_frames T))"
    using assms(1) by (simp add: map_butlast)
  from assms(2) ne show ?thesis
    by (auto simp: Filter_add_def Let_def trace_add_def l b frame_of_snoc tok_text_def)
qed

lemma trace_add_frames:
  "t_discarded (trace_add i T) = t_discarded T" "t_skipped (trace_add i T) = t_skipped T"
  "length (t_frames (trace_add i T)) = Suc (length (butlast (t_frames T)))"
  by (simp_all add: trace_add_def)

lemma concat_butlast_last:
  assumes "xss \<noteq> []"
  shows "concat xss = concat (butlast xss) @ last xss"
  using assms by (cases xss rule: rev_cases) simp_all

lemma concat_snoc_last:
  assumes "xss \<noteq> []"
  shows "concat (butlast xss @ [last xss @ ys]) = concat xss @ ys"
  using concat_butlast_last[OF assms] by simp

lemma accountedI:
  assumes "concat (t_frames T) = A" and "set (concat (t_discarded T)) = D"
    and "set (t_skipped T) = S"
    and "sorted_wrt (<) A" and "set A \<union> D \<union> S = {..<n}" and "set A \<inter> (D \<union> S) = {}"
    and "D \<inter> S = {}"
  shows "accounted n T"
  using assms unfolding accounted_def by blast

lemma accountedD:
  assumes "accounted n T"
  shows "sorted_wrt (<) (concat (t_frames T))"
    and "set (concat (t_frames T)) \<union> set (concat (t_discarded T)) \<union> set (t_skipped T) = {..<n}"
    and "set (concat (t_frames T)) \<inter> (set (concat (t_discarded T)) \<union> set (t_skipped T)) = {}"
    and "set (concat (t_discarded T)) \<inter> set (t_skipped T) = {}"
  using assms unfolding accounted_def by blast+

lemma trace_add_accounted:
  assumes "accounted n T" and "t_frames T \<noteq> []"
  shows "accounted (Suc n) (trace_add n T)"
proof -
  define A where "A = concat (t_frames T)"
  define D where "D = set (concat (t_discarded T))"
  define S where "S = set (t_skipped T)"
  note a = accountedD[OF assms(1), folded A_def D_def S_def]
  have c: "concat (t_frames (trace_add n T)) = A @ [n]"
    by (simp add: trace_add_def concat_butlast_last[OF assms(2)] A_def)
  from a(2) have lt: "\<forall>i \<in> set A. i < n" and nn: "n \<notin> D \<union> S" by auto
  show ?thesis
  proof (rule accountedI[OF c])
    show "set (concat (t_discarded (trace_add n T))) = D" by (simp add: trace_add_frames D_def)
    show "set (t_skipped (trace_add n T)) = S" by (simp add: trace_add_frames S_def)
    show "sorted_wrt (<) (A @ [n])" using a(1) lt by (simp add: sorted_wrt_append)
    show "set (A @ [n]) \<union> D \<union> S = {..<Suc n}" using a(2) by (auto simp: lessThan_Suc)
    show "set (A @ [n]) \<inter> (D \<union> S) = {}" using a(3) nn by auto
    show "D \<inter> S = {}" by (rule a(4))
  qed
qed

lemma push_accounted:
  "accounted n (T\<lparr>t_frames := t_frames T @ [[]]\<rparr>) = accounted n T"
  by (simp add: accounted_def)

lemma skip_accounted:
  assumes "accounted n T"
  shows "accounted (Suc n) (T\<lparr>t_skipped := t_skipped T @ [n]\<rparr>)"
proof -
  define A where "A = concat (t_frames T)"
  define D where "D = set (concat (t_discarded T))"
  define S where "S = set (t_skipped T)"
  note a = accountedD[OF assms(1), folded A_def D_def S_def]
  from a(2) have nn: "n \<notin> set A \<union> D" by auto
  show ?thesis
  proof (rule accountedI)
    show "concat (t_frames (T\<lparr>t_skipped := t_skipped T @ [n]\<rparr>)) = A" by (simp add: A_def)
    show "set (concat (t_discarded (T\<lparr>t_skipped := t_skipped T @ [n]\<rparr>))) = D"
      by (simp add: D_def)
    show "set (t_skipped (T\<lparr>t_skipped := t_skipped T @ [n]\<rparr>)) = insert n S"
      by (simp add: S_def)
    show "sorted_wrt (<) A" by (rule a(1))
    show "set A \<union> D \<union> insert n S = {..<Suc n}" using a(2) by (auto simp: lessThan_Suc)
    show "set A \<inter> (D \<union> insert n S) = {}" using a(3) nn by auto
    show "D \<inter> insert n S = {}" using a(4) nn by auto
  qed
qed

lemma trace_flush_accounted:
  assumes "accounted n T" and "2 \<le> length (t_frames T)"
  shows "accounted n (trace_flush F T)"
proof -
  from assms(2) have ne: "t_frames T \<noteq> []" and pne: "butlast (t_frames T) \<noteq> []"
    by (cases "t_frames T" rule: rev_cases; cases "butlast (t_frames T)"; simp)+
  define B where "B = concat (butlast (t_frames T))"
  define L where "L = last (t_frames T)"
  define D where "D = set (concat (t_discarded T))"
  define S where "S = set (t_skipped T)"
  have c: "concat (t_frames T) = B @ L"
    unfolding B_def L_def by (rule concat_butlast_last[OF ne])
  note a = accountedD[OF assms(1), unfolded c, folded D_def S_def]
  show ?thesis
  proof (cases "regex_search (f_regex F) (snd (last (f_stack F)))")
    case False
    then have t: "trace_flush F T = T\<lparr>t_frames := butlast (butlast (t_frames T))
        @ [last (butlast (t_frames T)) @ last (t_frames T)]\<rparr>"
      by (simp add: trace_flush_def Let_def)
    have "concat (t_frames (trace_flush F T)) = concat (t_frames T)"
      unfolding t using concat_snoc_last[OF pne, of "last (t_frames T)"]
        concat_butlast_last[OF ne] by simp
    moreover have "t_discarded (trace_flush F T) = t_discarded T"
      "t_skipped (trace_flush F T) = t_skipped T"
      unfolding t by simp_all
    ultimately show ?thesis using assms(1) by (simp only: accounted_def)
  next
    case True
    then have t: "trace_flush F T
        = T\<lparr>t_frames := butlast (t_frames T), t_discarded := t_discarded T @ [L]\<rparr>"
      by (simp add: trace_flush_def Let_def L_def)
    from a(1) have dj: "set B \<inter> set L = {}" and sb: "sorted_wrt (<) B"
      by (auto simp: sorted_wrt_append)
    show ?thesis
    proof (rule accountedI)
      show "concat (t_frames (trace_flush F T)) = B" unfolding t by (simp add: B_def)
      show "set (concat (t_discarded (trace_flush F T))) = D \<union> set L"
        unfolding t by (simp add: D_def)
      show "set (t_skipped (trace_flush F T)) = S" unfolding t by (simp add: S_def)
      show "sorted_wrt (<) B" by (rule sb)
      show "set B \<union> (D \<union> set L) \<union> S = {..<n}" using a(2) by auto
      show "set B \<inter> (D \<union> set L \<union> S) = {}" using a(3) dj by auto
      show "(D \<union> set L) \<inter> S = {}" using a(3,4) by auto
    qed
  qed
qed

lemma trace_flush_link:
  assumes "f_stack F = map (frame_of em) (t_frames T)" and "Filter_flush F = Some F1"
  shows "f_stack F1 = map (frame_of em) (t_frames (trace_flush F T))"
proof -
  from assms(2) have ne: "f_stack F \<noteq> []" by (auto simp: Filter_flush_def split: if_splits)
  with assms(1) have tne: "t_frames T \<noteq> []" by auto
  have l: "last (f_stack F) = frame_of em (last (t_frames T))"
    using assms(1) tne by (simp add: last_map)
  have b: "butlast (f_stack F) = map (frame_of em) (butlast (t_frames T))"
    using assms(1) by (simp add: map_butlast)
  show ?thesis
  proof (cases "regex_search (f_regex F) (snd (last (f_stack F)))")
    case True
    with assms(2) ne show ?thesis
      by (auto simp: Filter_flush_def trace_flush_def Let_def b)
  next
    case False
    with assms(2) ne have pne: "butlast (f_stack F) \<noteq> []"
      by (auto simp: Filter_flush_def Let_def split: if_splits)
    with b have tpne: "butlast (t_frames T) \<noteq> []" by auto
    have l2: "last (butlast (f_stack F)) = frame_of em (last (butlast (t_frames T)))"
      using b tpne by (simp add: last_map)
    have b2: "butlast (butlast (f_stack F)) = map (frame_of em) (butlast (butlast (t_frames T)))"
      using b by (simp add: map_butlast)
    from False assms(2) ne pne show ?thesis
      by (auto simp: Filter_flush_def trace_flush_def Let_def l l2 b2 frame_of_append)
  qed
qed

lemma trace_flush_skipped: "t_skipped (trace_flush F T) = t_skipped T"
  by (simp add: trace_flush_def Let_def)


lemma tracks_frames:
  assumes "tracks em n F T"
  shows "length (t_frames T) = length (f_stack F)"
  using assms by (simp add: tracks_def)

lemma trace_add_tracks:
  assumes "tracks em n F T" and "Filter_add (em n) F = Some F1"
  shows "tracks em (Suc n) F1 (trace_add n T)"
proof -
  from assms(2) have "f_stack F \<noteq> []" by (rule Filter_add_props)
  with assms(1) have ne: "t_frames T \<noteq> []" by (auto simp: tracks_def)
  from assms(1) have l: "f_stack F = map (frame_of em) (t_frames T)" and a: "accounted n T"
    and d: "list_all (\<lambda>ps. regex_search (f_regex F) (snd (frame_of em ps))) (t_discarded T)"
    by (simp_all add: tracks_def)
  from assms(1) have r: "f_redact F = (t_discarded T \<noteq> [])" by (simp add: tracks_def)
  from d r Filter_add_props(4,5)[OF assms(2)]
  have "list_all (\<lambda>ps. regex_search (f_regex F1) (snd (frame_of em ps)))
      (t_discarded (trace_add n T))
    \<and> f_redact F1 = (t_discarded (trace_add n T) \<noteq> [])"
    by (simp add: trace_add_frames)
  then show ?thesis
    unfolding tracks_def
    using trace_add_link[OF l assms(2)] trace_add_accounted[OF a ne] by blast
qed

lemma push_tracks:
  assumes "tracks em n F T"
  shows "tracks em n (F\<lparr>f_stack := f_stack F @ [([], [])]\<rparr>) (T\<lparr>t_frames := t_frames T @ [[]]\<rparr>)"
  using assms by (simp add: tracks_def push_accounted frame_of_Nil)

lemma trace_start_tracks:
  assumes "tracks em n F T" and "Filter_start sc (em n) F = Some F1"
  shows "tracks em (Suc n) F1 (trace_start sc n F T)"
proof (cases "f_scope F = sc \<and> (nestable sc \<or> length (f_stack F) = 1)")
  case True
  with assms(2) have "Filter_add (em n) (F\<lparr>f_stack := f_stack F @ [([], [])]\<rparr>) = Some F1"
    by (simp add: Filter_start_def)
  from trace_add_tracks[OF push_tracks[OF assms(1)] this] True show ?thesis
    by (simp add: trace_start_def)
next
  case False
  with assms(2) have "Filter_add (em n) F = Some F1"
    by (auto simp: Filter_start_def)
  from trace_add_tracks[OF assms(1) this] False show ?thesis
    by (auto simp: trace_start_def)
qed

lemma trace_flush_tracks:
  assumes "tracks em n F T" and "Filter_flush F = Some F1" and "1 < length (f_stack F)"
  shows "tracks em n F1 (trace_flush F T)"
proof -
  from assms(1,3) have ge: "2 \<le> length (t_frames T)" by (simp add: tracks_def)
  from assms(1) have l: "f_stack F = map (frame_of em) (t_frames T)" and a: "accounted n T"
    and d: "list_all (\<lambda>ps. regex_search (f_regex F) (snd (frame_of em ps))) (t_discarded T)"
    by (simp_all add: tracks_def)
  from ge have "t_frames T \<noteq> []" by auto
  with l have "last (f_stack F) = frame_of em (last (t_frames T))" by (simp add: last_map)
  moreover from assms(2) have "f_regex F1 = f_regex F"
    by (auto simp: Filter_flush_def Let_def split: if_splits)
  moreover from assms(1) have "f_redact F = (t_discarded T \<noteq> [])" by (simp add: tracks_def)
  moreover from assms(2) have "f_redact F1
      = (f_redact F \<or> regex_search (f_regex F) (snd (last (f_stack F))))"
    by (auto simp: Filter_flush_def Let_def split: if_splits)
  ultimately have "list_all (\<lambda>ps. regex_search (f_regex F1) (snd (frame_of em ps)))
      (t_discarded (trace_flush F T))
    \<and> f_redact F1 = (t_discarded (trace_flush F T) \<noteq> [])"
    using d by (simp add: trace_flush_def Let_def)
  then show ?thesis
    unfolding tracks_def
    using trace_flush_link[OF l assms(2)] trace_flush_accounted[OF a ge] by blast
qed

lemma trace_end_tracks:
  assumes "tracks em n F T" and "Filter_end sc (em n) F = Some F1"
  shows "tracks em (Suc n) F1 (trace_end sc n (em n) F T)"
proof -
  from assms(2) obtain F0 where a: "Filter_add (em n) F = Some F0"
    by (auto simp: Filter_end_def split: option.splits)
  note t = trace_add_tracks[OF assms(1) a]
  show ?thesis
  proof (cases "f_scope F0 = sc \<and> length (f_stack F0) > 1")
    case True
    with assms(2) a have "Filter_flush F0 = Some F1" by (simp add: Filter_end_def)
    from trace_flush_tracks[OF t this] True a show ?thesis
      by (simp add: trace_end_def)
  next
    case False
    with assms(2) a have "F1 = F0" by (auto simp: Filter_end_def)
    with t False a show ?thesis by (auto simp: trace_end_def)
  qed
qed

lemma trace_start_skipped: "t_skipped (trace_start sc i F T) = t_skipped T"
  by (simp add: trace_start_def trace_add_def)

lemma trace_end_skipped: "t_skipped (trace_end sc i tok F T) = t_skipped T"
  by (simp add: trace_end_def trace_add_def trace_flush_skipped split: option.splits)

lemma trace_token_skipped:
  "t_skipped (trace_token i tok F T)
     = (if getType tok = tt_space \<and> f_trim F then t_skipped T @ [i] else t_skipped T)"
  by (cases "getType tok")
     (simp_all add: trace_token_def Let_def trace_start_skipped trace_end_skipped trace_add_def)

lemma trace_token_tracks:
  assumes "tracks em n F T" and "handleToken Q tok F = Some F1"
    and "em n = emitted Q (f_regex F) (f_scope F) tok"
  shows "tracks em (Suc n) F1 (trace_token n tok F T)"
proof (cases "getType tok")
  case tt_word
  with assms(3) have e: "em n = tok" by (simp add: emitted_def)
  from assms(2) tt_word show ?thesis
    using trace_start_tracks[OF assms(1), of _ F1] trace_end_tracks[OF assms(1), of _ F1]
    by (auto simp: handleToken_def trace_token_def Let_def e split: if_splits)
next
  case tt_space
  with assms(3) have e: "em n = tok" by (simp add: emitted_def)
  show ?thesis
  proof (cases "f_trim F")
    case True
    with assms(2) tt_space have "f_stack F1 = f_stack F" "f_regex F1 = f_regex F"
      "f_redact F1 = f_redact F"
      by (auto simp: handleToken_def Let_def)
    with assms(1) True tt_space show ?thesis
      by (simp add: trace_token_def tracks_def skip_accounted)
  next
    case False
    with assms(2) tt_space obtain F0 where a: "Filter_add (em n) F = Some F0"
      and f: "f_stack F1 = f_stack F0" "f_regex F1 = f_regex F0" "f_redact F1 = f_redact F0"
      by (auto simp: handleToken_def Let_def e split: option.splits)
    from trace_add_tracks[OF assms(1) a] f False tt_space show ?thesis
      by (simp add: trace_token_def tracks_def)
  qed
next
  case tt_string
  show ?thesis
  proof (cases "f_scope F = s_match")
    case True
    with assms(3) tt_string
    have e: "em n = Token_string Q (regex_replace (f_regex F) (getValue tok))"
      by (simp add: emitted_def)
    from assms(2) tt_string True have "Filter_add (em n) F = Some F1"
      by (simp add: handleToken_def Let_def e)
    from trace_add_tracks[OF assms(1) this] tt_string True show ?thesis
      by (simp add: trace_token_def)
  next
    case False
    with assms(3) have e: "em n = tok" by (simp add: emitted_def)
    from assms(2) tt_string False have "Filter_start s_operator (em n) F = Some F1"
      by (simp add: handleToken_def Let_def e)
    from trace_start_tracks[OF assms(1) this] tt_string False show ?thesis
      by (simp add: trace_token_def)
  qed
qed (use assms in \<open>auto simp: handleToken_def trace_token_def Let_def emitted_def
      intro: trace_start_tracks\<close>)


lemma trace_tokens_tracks:
  assumes "tracks em n F T" and "f_stack F \<noteq> []" and "handleTokens Q ts F = Some F1"
    and "\<forall>k<length ts. em (n + k) = emitted Q (f_regex F) (f_scope F) (ts ! k)"
  shows "tracks em (n + length ts) F1 (trace_tokens Q n ts F T)"
  using assms
proof (induction ts arbitrary: n F T)
  case Nil
  then show ?case by simp
next
  case (Cons t ts)
  from handleToken_Some[OF Cons.prems(2), of Q t] obtain F0 where
    h: "handleToken Q t F = Some F0" "f_stack F0 \<noteq> []"
       "f_scope F0 = f_scope F" "f_regex F0 = f_regex F" by blast
  from Cons.prems(3) h(1) have r: "handleTokens Q ts F0 = Some F1" by simp
  from Cons.prems(4) have e0: "em n = emitted Q (f_regex F) (f_scope F) t" by auto
  have e: "\<forall>k<length ts. em (Suc n + k) = emitted Q (f_regex F0) (f_scope F0) (ts ! k)"
  proof (intro allI impI)
    fix k assume "k < length ts"
    then have "Suc k < length (t # ts)" by simp
    with Cons.prems(4) have "em (n + Suc k) = emitted Q (f_regex F) (f_scope F) ((t # ts) ! Suc k)"
      by blast
    then show "em (Suc n + k) = emitted Q (f_regex F0) (f_scope F0) (ts ! k)"
      by (simp add: h)
  qed
  from Cons.IH[OF trace_token_tracks[OF Cons.prems(1) h(1) e0] h(2) r e] h(1)
  show ?case by simp
qed

lemma trace_eof_tracks:
  assumes "tracks em n F T" and "handleEOF F = Some F1"
  shows "tracks em n F1 (trace_eof F T) \<and> t_skipped (trace_eof F T) = t_skipped T"
  using assms
proof (induction F T rule: trace_eof.induct)
  case (1 F T)
  show ?case
  proof (cases "length (f_stack F) > 1")
    case True
    with "1.prems"(2) obtain F0 where
      f: "Filter_flush F = Some F0" "handleEOF F0 = Some F1"
      by (subst (asm) handleEOF.simps) (auto split: option.splits)
    from "1.IH"[OF True f(1) trace_flush_tracks[OF "1.prems"(1) f(1) True] f(2)] True f(1)
    show ?thesis
      by (subst (1 2) trace_eof.simps) (simp add: trace_flush_skipped)
  next
    case False
    with "1.prems"(2) have "F1 = F" by (subst (asm) handleEOF.simps) simp
    with False "1.prems"(1) show ?thesis by (subst (1 2) trace_eof.simps) simp
  qed
qed

lemma handleTokens_append:
  "handleTokens Q (xs @ ys) F = Option.bind (handleTokens Q xs F) (handleTokens Q ys)"
  by (induction xs arbitrary: F) (simp_all split: option.splits)

lemma trace_tokens_skipped:
  assumes "f_stack F \<noteq> []"
  shows "set (t_skipped (trace_tokens Q n ts F T))
     = set (t_skipped T)
       \<union> {n + k |k. k < length ts \<and> getType (ts ! k) = tt_space
                  \<and> (\<exists>F'. handleTokens Q (take k ts) F = Some F' \<and> f_trim F')}"
  using assms
proof (induction ts arbitrary: n F T)
  case Nil
  then show ?case by simp
next
  case (Cons t ts)
  from handleToken_Some[OF Cons.prems, of Q t] obtain F0 where
    h: "handleToken Q t F = Some F0" "f_stack F0 \<noteq> []" by blast
  let ?P = "\<lambda>k. getType ((t # ts) ! k) = tt_space
                  \<and> (\<exists>F'. handleTokens Q (take k (t # ts)) F = Some F' \<and> f_trim F')"
  have split: "{n + k |k. k < length (t # ts) \<and> ?P k}
      = (if ?P 0 then {n} else {}) \<union> {Suc n + k |k. k < length ts \<and> ?P (Suc k)}"
  proof (intro set_eqI iffI)
    fix x assume "x \<in> {n + k |k. k < length (t # ts) \<and> ?P k}"
    then obtain k where k: "x = n + k" "k < length (t # ts)" "?P k" by blast
    show "x \<in> (if ?P 0 then {n} else {}) \<union> {Suc n + k |k. k < length ts \<and> ?P (Suc k)}"
    proof (cases k)
      case 0
      with k show ?thesis by simp
    next
      case (Suc j)
      with k have "x = Suc n + j" "j < length ts" "?P (Suc j)" by simp_all
      then show ?thesis by blast
    qed
  next
    fix x assume "x \<in> (if ?P 0 then {n} else {}) \<union> {Suc n + k |k. k < length ts \<and> ?P (Suc k)}"
    then consider "?P 0" "x = n" | j where "x = Suc n + j" "j < length ts" "?P (Suc j)"
      by (auto split: if_splits)
    then show "x \<in> {n + k |k. k < length (t # ts) \<and> ?P k}"
    proof cases
      case 1
      then have "x = n + 0" "0 < length (t # ts)" by simp_all
      with 1(1) show ?thesis by blast
    next
      case 2
      then have "x = n + Suc j" "Suc j < length (t # ts)" by simp_all
      with 2(3) show ?thesis by blast
    qed
  qed
  have p0: "?P 0 = (getType t = tt_space \<and> f_trim F)" by simp
  have ps: "\<And>k. ?P (Suc k) = (getType (ts ! k) = tt_space
      \<and> (\<exists>F'. handleTokens Q (take k ts) F0 = Some F' \<and> f_trim F'))"
    by (simp add: h(1))
  have "set (t_skipped (trace_tokens Q n (t # ts) F T))
      = set (t_skipped (trace_token n t F T))
        \<union> {Suc n + k |k. k < length ts \<and> getType (ts ! k) = tt_space
              \<and> (\<exists>F'. handleTokens Q (take k ts) F0 = Some F' \<and> f_trim F')}"
    using Cons.IH[OF h(2), of "Suc n" "trace_token n t F T"] h(1) by simp
  also have "set (t_skipped (trace_token n t F T))
      = set (t_skipped T) \<union> (if ?P 0 then {n} else {})"
    unfolding p0 by (simp add: trace_token_skipped)
  finally show ?case
    unfolding split ps by (simp only: Un_assoc)
qed

lemma trim_after_discard:
  assumes "k \<le> length toks"
    and "handleTokens Q (take k toks) (Filter_new rx sc) = Some F"
  shows "f_trim F = (0 < k \<and> discards_at Q rx sc toks (k - 1))"
proof (cases k)
  case 0
  with assms(2) have "F = Filter_new rx sc" by simp
  with 0 show ?thesis by (simp add: Filter_new_def)
next
  case (Suc j)
  with assms(1) have j: "j < length toks" by simp
  then have t: "take k toks = take j toks @ [toks ! j]"
    by (simp add: Suc take_Suc_conv_app_nth)
  from assms(2) obtain Fj where
    h: "handleTokens Q (take j toks) (Filter_new rx sc) = Some Fj"
       "handleToken Q (toks ! j) Fj = Some F"
    unfolding t handleTokens_append
    by (cases "handleTokens Q (take j toks) (Filter_new rx sc)")
       (auto split: option.splits)
  from handleToken_flags(2)[OF h(2)] h(1) Suc show ?thesis
    by (simp add: discards_at_def state_after_def)
qed

lemma sorted_filter_unique:
  assumes "sorted_wrt (<) ks" and "set ks \<union> X = {..<N}" and "set ks \<inter> X = {}"
  shows "ks = filter (\<lambda>i. i \<notin> X) [0..<N]"
proof (rule sorted_distinct_set_unique)
  from assms(1) show "sorted ks" "distinct ks" by (simp_all add: strict_sorted_iff)
  show "sorted (filter (\<lambda>i. i \<notin> X) [0..<N])" by (simp add: sorted_wrt_filter)
  show "distinct (filter (\<lambda>i. i \<notin> X) [0..<N])" by simp
  from assms(2,3) show "set ks = set (filter (\<lambda>i. i \<notin> X) [0..<N])" by auto
qed

lemma trace_run_tracks:
  assumes "run_filter Q toks (Filter_new rx sc) = Some F"
  shows "tracks (\<lambda>i. emitted Q rx sc (toks ! i)) (length toks) F
            (trace_run Q toks (Filter_new rx sc))"
    and "t_skipped (trace_run Q toks (Filter_new rx sc))
           = t_skipped (trace_tokens Q 0 toks (Filter_new rx sc) trace_new)"
proof -
  let ?F0 = "Filter_new rx sc" and ?em = "\<lambda>i. emitted Q rx sc (toks ! i)"
  have ne: "f_stack ?F0 \<noteq> []" by (simp add: Filter_new_def)
  have t0: "tracks ?em 0 ?F0 trace_new"
    by (simp add: tracks_def Filter_new_def trace_new_def frame_of_Nil accounted_def)
  from assms obtain F1 where
    h: "handleTokens Q toks ?F0 = Some F1" "handleEOF F1 = Some F"
    by (auto simp: run_filter_def split: option.splits)
  have e: "\<forall>k<length toks. ?em (0 + k) = emitted Q (f_regex ?F0) (f_scope ?F0) (toks ! k)"
    by (simp add: Filter_new_def)
  from trace_tokens_tracks[OF t0 ne h(1) e]
  have "tracks ?em (length toks) F1 (trace_tokens Q 0 toks ?F0 trace_new)" by simp
  from trace_eof_tracks[OF this h(2)] h(1)
  show "tracks ?em (length toks) F (trace_run Q toks ?F0)"
    and "t_skipped (trace_run Q toks ?F0) = t_skipped (trace_tokens Q 0 toks ?F0 trace_new)"
    by (simp_all add: trace_run_def)
qed

lemma skipped_positions_eq:
  "skipped_positions Q rx sc toks
     = {i. 0 < i \<and> i < length toks \<and> getType (toks ! i) = tt_space
           \<and> discards_at Q rx sc toks (i - 1)}"
proof -
  let ?F0 = "Filter_new rx sc"
  have ne: "f_stack ?F0 \<noteq> []" by (simp add: Filter_new_def)
  from run_filter_Some[OF ne, of Q toks] obtain F where
    r: "run_filter Q toks ?F0 = Some F" by blast
  have "skipped_positions Q rx sc toks
      = {0 + k |k. k < length toks \<and> getType (toks ! k) = tt_space
            \<and> (\<exists>F'. handleTokens Q (take k toks) ?F0 = Some F' \<and> f_trim F')}"
    unfolding skipped_positions_def trace_run_tracks(2)[OF r] trace_tokens_skipped[OF ne]
    by (simp add: trace_new_def)
  also have "\<dots> = {i. 0 < i \<and> i < length toks \<and> getType (toks ! i) = tt_space
           \<and> discards_at Q rx sc toks (i - 1)}"
  proof (intro set_eqI iffI)
    fix x assume "x \<in> {0 + k |k. k < length toks \<and> getType (toks ! k) = tt_space
            \<and> (\<exists>F'. handleTokens Q (take k toks) ?F0 = Some F' \<and> f_trim F')}"
    then obtain F' where x: "x < length toks" "getType (toks ! x) = tt_space"
      "handleTokens Q (take x toks) ?F0 = Some F'" "f_trim F'" by auto
    from trim_after_discard[OF _ x(3)] x(1,4)
    have "0 < x \<and> discards_at Q rx sc toks (x - 1)" by simp
    with x show "x \<in> {i. 0 < i \<and> i < length toks \<and> getType (toks ! i) = tt_space
           \<and> discards_at Q rx sc toks (i - 1)}" by simp
  next
    fix x assume "x \<in> {i. 0 < i \<and> i < length toks \<and> getType (toks ! i) = tt_space
           \<and> discards_at Q rx sc toks (i - 1)}"
    then have x: "0 < x" "x < length toks" "getType (toks ! x) = tt_space"
      "discards_at Q rx sc toks (x - 1)" by simp_all
    from handleTokens_Some[OF ne, of Q "take x toks"] obtain F' where
      f: "handleTokens Q (take x toks) ?F0 = Some F'" by blast
    from trim_after_discard[OF _ f] x have "f_trim F'" by simp
    with x f show "x \<in> {0 + k |k. k < length toks \<and> getType (toks ! k) = tt_space
            \<and> (\<exists>F'. handleTokens Q (take k toks) ?F0 = Some F' \<and> f_trim F')}"
      by auto
  qed
  finally show ?thesis .
qed

lemma output_positions:
  assumes "run_filter Q toks (Filter_new rx sc) = Some F"
  shows "data F = Some (concat (map (\<lambda>i. getRawValue (emitted Q rx sc (toks ! i)))
           (filter (\<lambda>i. i \<notin> discarded_positions Q rx sc toks \<union> skipped_positions Q rx sc toks)
              [0..<length toks])))"
proof -
  let ?F0 = "Filter_new rx sc" and ?em = "\<lambda>i. emitted Q rx sc (toks ! i)"
  let ?T = "trace_run Q toks ?F0"
  have ne: "f_stack ?F0 \<noteq> []" by (simp add: Filter_new_def)
  from run_filter_Some[OF ne, of Q toks] assms have l: "length (f_stack F) = 1" by auto
  from trace_run_tracks(1)[OF assms] have
    k: "f_stack F = map (frame_of ?em) (t_frames ?T)" and a: "accounted (length toks) ?T"
    by (simp_all add: tracks_def)
  from k l obtain ks where ks: "t_frames ?T = [ks]"
    by (cases "t_frames ?T") auto
  from a have "ks = filter (\<lambda>i. i \<notin> set (concat (t_discarded ?T)) \<union> set (t_skipped ?T))
      [0..<length toks]"
    unfolding accounted_def ks
    by (intro sorted_filter_unique) (simp_all add: Un_assoc)
  with k ks show ?thesis
    by (simp add: data_def frame_of_def discarded_positions_def skipped_positions_def)
qed


lemma discarded_not_skipped:
  assumes "run_filter Q toks (Filter_new rx sc) = Some F"
  shows "discarded_positions Q rx sc toks \<inter> skipped_positions Q rx sc toks = {}"
  using trace_run_tracks(1)[OF assms]
  by (simp add: tracks_def accounted_def discarded_positions_def skipped_positions_def)

text \<open>
  C5: for every pattern, target scope and token sequence, the output \<open>data()\<close> after
  \<open>handleEOF\<close> consists of the bytes of the tokens handed to \<open>_add\<close>, in the order of the
  input, without the tokens that a frame held when \<open>_flush\<close> discarded it and without the
  white-space tokens that \<open>handleToken\<close> skipped. The skipped tokens are exactly the
  white-space tokens that immediately follow a token whose call of \<open>handleToken\<close> discarded
  a frame, so at most one for each discard; none of them was held by a discarded frame, and
  the text of every discarded frame matched the pattern. Hence a white-space token that does
  not immediately follow a discard is in the output, unless a frame that was discarded held
  it.
\<close>

theorem output_omits_frames_and_next_space:
  "\<exists>F. run_filter Q toks (Filter_new rx sc) = Some F
     \<and> data F = Some (concat (map (\<lambda>i. getRawValue (emitted Q rx sc (toks ! i)))
          (filter (\<lambda>i. i \<notin> discarded_positions Q rx sc toks \<union> skipped_positions Q rx sc toks)
             [0..<length toks])))
     \<and> skipped_positions Q rx sc toks
         = {i. 0 < i \<and> i < length toks \<and> getType (toks ! i) = tt_space
               \<and> discards_at Q rx sc toks (i - 1)}
     \<and> discarded_positions Q rx sc toks \<inter> skipped_positions Q rx sc toks = {}
     \<and> list_all (\<lambda>ps. regex_search rx (concat (map (\<lambda>i. tok_text (emitted Q rx sc (toks ! i))) ps)))
          (t_discarded (trace_run Q toks (Filter_new rx sc)))"
proof -
  have ne: "f_stack (Filter_new rx sc) \<noteq> []" by (simp add: Filter_new_def)
  from run_filter_Some[OF ne, of Q toks] obtain F where
    r: "run_filter Q toks (Filter_new rx sc) = Some F" "f_regex F = f_regex (Filter_new rx sc)"
    by blast
  from trace_run_tracks(1)[OF r(1)] r(2)
  have "list_all (\<lambda>ps. regex_search rx (concat (map (\<lambda>i. tok_text (emitted Q rx sc (toks ! i))) ps)))
          (t_discarded (trace_run Q toks (Filter_new rx sc)))"
    by (simp add: tracks_def frame_of_def Filter_new_def)
  with r(1) output_positions[OF r(1)] skipped_positions_eq[of Q rx sc toks]
    discarded_not_skipped[OF r(1)]
  show ?thesis by blast
qed

lemmas trace_simps = trace_new_def trace_add_def trace_flush_def trace_start_def trace_end_def
  trace_token_def trace_eof.simps trace_run_def discarded_positions_def skipped_positions_def

lemma space_example_trace:
  "trace_run simple_qpdf
      [mk_string ''secret'', mk_space '' '', mk_word ''Tj'', mk_space '' '', mk_space ''  '',
       mk_string ''hello'', mk_space '' '', mk_word ''Tj'']
      (Filter_new (literal_regex ''secret'') s_operator)
     = \<lparr>t_frames = [[4, 5, 6, 7]], t_discarded = [[0, 1, 2]], t_skipped = [3]\<rparr>"
  by (simp add: trace_simps filter_simps token_simps)


theorem output_omits_frames_and_next_space_witness:
  "(\<exists>F. run_filter simple_qpdf
        [mk_string ''secret'', mk_space '' '', mk_word ''Tj'', mk_space '' '', mk_space ''  '',
         mk_string ''hello'', mk_space '' '', mk_word ''Tj'']
        (Filter_new (literal_regex ''secret'') s_operator) = Some F
      \<and> data F = Some ''  (hello) Tj'')
   \<and> discarded_positions simple_qpdf (literal_regex ''secret'') s_operator
        [mk_string ''secret'', mk_space '' '', mk_word ''Tj'', mk_space '' '', mk_space ''  '',
         mk_string ''hello'', mk_space '' '', mk_word ''Tj''] = {0, 1, 2}
   \<and> skipped_positions simple_qpdf (literal_regex ''secret'') s_operator
        [mk_string ''secret'', mk_space '' '', mk_word ''Tj'', mk_space '' '', mk_space ''  '',
         mk_string ''hello'', mk_space '' '', mk_word ''Tj''] = {3}
   \<and> discards_at simple_qpdf (literal_regex ''secret'') s_operator
        [mk_string ''secret'', mk_space '' '', mk_word ''Tj'', mk_space '' '', mk_space ''  '',
         mk_string ''hello'', mk_space '' '', mk_word ''Tj''] 2"
proof -
  let ?toks = "[mk_string ''secret'', mk_space '' '', mk_word ''Tj'', mk_space '' '',
      mk_space ''  '', mk_string ''hello'', mk_space '' '', mk_word ''Tj'']"
  let ?rx = "literal_regex ''secret''"
  have d: "discarded_positions simple_qpdf ?rx s_operator ?toks = {0, 1, 2}"
    and s: "skipped_positions simple_qpdf ?rx s_operator ?toks = {3}"
    by (simp_all add: discarded_positions_def skipped_positions_def space_example_trace)
  from output_omits_frames_and_next_space[of simple_qpdf ?toks ?rx s_operator]
  obtain F where
    f: "run_filter simple_qpdf ?toks (Filter_new ?rx s_operator) = Some F"
       "data F = Some (concat (map (\<lambda>i. getRawValue (emitted simple_qpdf ?rx s_operator (?toks ! i)))
          (filter (\<lambda>i. i \<notin> discarded_positions simple_qpdf ?rx s_operator ?toks
                        \<union> skipped_positions simple_qpdf ?rx s_operator ?toks)
             [0..<length ?toks])))"
       "skipped_positions simple_qpdf ?rx s_operator ?toks
         = {i. 0 < i \<and> i < length ?toks \<and> getType (?toks ! i) = tt_space
               \<and> discards_at simple_qpdf ?rx s_operator ?toks (i - 1)}"
    by blast
  from f(2) have o: "data F = Some ''  (hello) Tj''"
    unfolding d s by (simp add: emitted_def token_simps)
  have "3 \<in> skipped_positions simple_qpdf ?rx s_operator ?toks" by (simp add: s)
  then have "discards_at simple_qpdf ?rx s_operator ?toks (3 - 1)"
    by (subst (asm) f(3)) simp
  then have "discards_at simple_qpdf ?rx s_operator ?toks 2" by simp
  with f(1) o d s show ?thesis by blast
qed

section \<open>Streams without a match\<close>

lemma nowhere_matches_verdict:
  assumes "nowhere_matches Q rx sc toks"
  shows "\<exists>F. run_filter Q toks (Filter_new rx sc) = Some F \<and> redact F = Some False"
proof -
  let ?F0 = "Filter_new rx sc"
  have ne: "f_stack ?F0 \<noteq> []" by (simp add: Filter_new_def)
  from run_filter_Some[OF ne, of Q toks] obtain F where
    r: "run_filter Q toks ?F0 = Some F" "length (f_stack F) = 1" "f_regex F = f_regex ?F0"
    by blast
  from r(2) obtain root where st: "f_stack F = [root]" by (cases "f_stack F") auto
  from assms r(1) st have nd: "\<not> list_ex is_discard (run_events Q toks ?F0)"
    and nr: "\<not> regex_search rx (snd root)"
    by (simp_all add: nowhere_matches_def)
  have "f_redact F = list_ex is_discard (run_events Q toks ?F0)"
    using run_filter_redact[OF r(1)] by (simp add: Filter_new_def)
  with nd nr st r(3) have "redact F = Some False"
    by (simp add: redact_def Filter_new_def)
  with r(1) show ?thesis by blast
qed

lemma content_loop_unmatched:
  assumes "regex args = Some pattern"
    and "\<forall>obj \<in> set objs.
           nowhere_matches Q (regex_compile Q pattern) (scope args)
             (tokenize Q (streamData (doc obj)))"
  shows "content_loop Q args objs contents doc = completed (contents @ objs) doc"
  using assms(2)
proof (induction objs arbitrary: contents)
  case Nil
  then show ?case by simp
next
  case (Cons obj objs)
  from Cons.prems have
    "nowhere_matches Q (regex_compile Q pattern) (scope args) (tokenize Q (streamData (doc obj)))"
    by simp
  from nowhere_matches_verdict[OF this] obtain F where
    "filterAsContents Q doc obj (Filter_new (regex_compile Q pattern) (scope args)) = Some F"
    "redact F = Some False"
    by (auto simp: filterAsContents_def)
  moreover have "content_loop Q args objs (contents @ [obj]) doc
      = completed ((contents @ [obj]) @ objs) doc"
    using Cons.prems by (intro Cons.IH) simp
  ultimately show ?case using assms(1) by simp
qed

lemma one_stream_page_simps:
  "getContents (one_stream_page bytes) 3 = [4]"
  "streamData (one_stream_page bytes 4) = bytes"
  "getFormXObjects (one_stream_page bytes i) = []"
  "isPageObject (one_stream_page bytes i) = (i = 3)"
  by (simp_all add: one_stream_page_def getContents_def getPageContents_def)

lemma example_args_simps:
  "regex (example_args sc) = Some ''secret''"
  "scope (example_args sc) = sc"
  "outfile (example_args sc) = None"
  "infile (example_args sc) = Some ''in.pdf''"
  by (simp_all add: example_args_def)

lemma tokenize_hello:
  "tokenize simple_qpdf ''(hello world) Tj''
     = [mk_string ''hello world'', mk_space '' '', mk_word ''Tj'']"
  by (simp add: lex_simps)


section \<open>Scenario A on the code\<close>

lemma setContents_one_stream_page:
  "setContents 3 [4] (one_stream_page bytes) = one_stream_page bytes"
  by (rule ext) (simp add: setContents_def one_stream_page_def)

lemma replaceStreamData_one_stream_page:
  "replaceStreamData 4 d (one_stream_page bytes) = one_stream_page d"
  by (rule ext) (simp add: replaceStreamData_def one_stream_page_def)

lemma redactPage_calls_page:
  "redactPage_calls Q args (RedactPage page) doc =
     (case content_loop Q args (getContents doc page) [] doc of
        crashed \<Rightarrow> Some crash
      | bailed doc1 \<Rightarrow> Some (return True doc1)
      | completed contents doc1 \<Rightarrow>
          redactPage_calls Q args
            (FormLoop (getFormXObjects (setContents page contents doc1 page)))
            (setContents page contents doc1))"
  by (subst redactPage_calls.simps) simp

lemma redactPage_calls_nil:
  "redactPage_calls Q args (FormLoop []) doc = Some (return False doc)"
  by (subst redactPage_calls.simps) simp

lemma redactPage_calls_cons:
  "redactPage_calls Q args (FormLoop (form # forms)) doc =
     Option.bind (redactPage_calls Q args (RedactPage form) doc)
       (\<lambda>r. case r of
              crash \<Rightarrow> Some crash
            | return b doc1 \<Rightarrow>
                if b then Some (return True doc1)
                else redactPage_calls Q args (FormLoop forms) doc1)"
  by (subst redactPage_calls.simps) simp

lemma tokenize_scenario_A:
  "tokenize simple_qpdf ''(hello secret world) Tj''
     = [mk_string ''hello secret world'', mk_space '' '', mk_word ''Tj'']"
  by (simp add: lex_simps)

lemma run_scenario_A:
  "run_filter simple_qpdf [mk_string ''hello secret world'', mk_space '' '', mk_word ''Tj'']
      (Filter_new (literal_regex ''secret'') s_match)
     = Some \<lparr>f_regex = literal_regex ''secret'', f_scope = s_match, f_redact = False,
             f_trim = False, f_stack = [(''(hello  world) Tj'', ''hello  world'')]\<rparr>"
  by (simp add: filter_simps token_simps simple_qpdf_simps)

text \<open>
  C1, Scenario A on the code: with \<open>-m\<close> and the pattern \<open>secret\<close>, the filter produces
  the output \<open>(hello  world) Tj\<close> for the stream \<open>(hello secret world) Tj\<close>, but its text
  is the text after the replacement, which no longer matches, so \<open>redact()\<close> is false;
  the loop of \<open>redactPage\<close> does not call \<open>replaceStreamData\<close>, and \<open>redactPage\<close> returns
  with the stream holding \<open>(hello secret world) Tj\<close>.
\<close>

theorem scenario_A_stream_not_replaced:
  "run_filter simple_qpdf (tokenize simple_qpdf ''(hello secret world) Tj'')
      (Filter_new (regex_compile simple_qpdf ''secret'') s_match)
     = Some \<lparr>f_regex = literal_regex ''secret'', f_scope = s_match, f_redact = False,
             f_trim = False, f_stack = [(''(hello  world) Tj'', ''hello  world'')]\<rparr>
   \<and> data \<lparr>f_regex = literal_regex ''secret'', f_scope = s_match, f_redact = False,
             f_trim = False, f_stack = [(''(hello  world) Tj'', ''hello  world'')]\<rparr>
       = Some ''(hello  world) Tj''
   \<and> redact \<lparr>f_regex = literal_regex ''secret'', f_scope = s_match, f_redact = False,
             f_trim = False, f_stack = [(''(hello  world) Tj'', ''hello  world'')]\<rparr>
       = Some False
   \<and> redactPage simple_qpdf (example_args s_match) 3
        (one_stream_page ''(hello secret world) Tj'')
       = Some (return False (one_stream_page ''(hello secret world) Tj''))
   \<and> streamData (one_stream_page ''(hello secret world) Tj'' 4) = ''(hello secret world) Tj''"
proof -
  let ?F = "\<lparr>f_regex = literal_regex ''secret'', f_scope = s_match, f_redact = False,
             f_trim = False, f_stack = [(''(hello  world) Tj'', ''hello  world'')]\<rparr>"
  have r: "run_filter simple_qpdf (tokenize simple_qpdf ''(hello secret world) Tj'')
      (Filter_new (regex_compile simple_qpdf ''secret'') s_match) = Some ?F"
    by (simp only: tokenize_scenario_A simple_qpdf_simps(1) run_scenario_A)
  have d: "data ?F = Some ''(hello  world) Tj''" by (simp add: data_def)
  have v: "redact ?F = Some False" by (simp add: redact_def literal_regex_simps)
  have l: "content_loop simple_qpdf (example_args s_match) [4] []
        (one_stream_page ''(hello secret world) Tj'')
      = completed [4] (one_stream_page ''(hello secret world) Tj'')"
    using r v
    by (simp add: example_args_simps filterAsContents_def one_stream_page_simps)
  have p: "redactPage simple_qpdf (example_args s_match) 3
        (one_stream_page ''(hello secret world) Tj'')
       = Some (return False (one_stream_page ''(hello secret world) Tj''))"
    by (simp add: redactPage_def redactPage_calls_page one_stream_page_simps l
        setContents_one_stream_page redactPage_calls_nil del: content_loop.simps)
  show ?thesis using r d v p by (simp add: one_stream_page_simps)
qed

section \<open>The output when nothing was discarded\<close>

lemma concat_fst_butlast:
  assumes "st \<noteq> []"
  shows "concat (map fst st) = concat (map fst (butlast st)) @ fst (last st)"
proof -
  from assms have "st = butlast st @ [last st]" by simp
  then have "concat (map fst st) = concat (map fst (butlast st @ [last st]))" by simp
  then show ?thesis by simp
qed

lemma Filter_add_raw:
  assumes "Filter_add tok F = Some F1"
  shows "concat (map fst (f_stack F1)) = concat (map fst (f_stack F)) @ getRawValue tok"
proof -
  from assms have ne: "f_stack F \<noteq> []" by (rule Filter_add_props(2))
  from assms ne have "f_stack F1 = butlast (f_stack F) @
      [(fst (last (f_stack F)) @ getRawValue tok, snd (last (f_stack F)) @ tok_text tok)]"
    by (auto simp: Filter_add_Some tok_text_def)
  then show ?thesis using concat_fst_butlast[OF ne] by simp
qed

lemma Filter_start_raw:
  assumes "Filter_start sc tok F = Some F1"
  shows "concat (map fst (f_stack F1)) = concat (map fst (f_stack F)) @ getRawValue tok"
    and "f_scope F1 = f_scope F"
proof -
  let ?F = "if f_scope F = sc \<and> (nestable sc \<or> length (f_stack F) = 1)
        then F\<lparr>f_stack := f_stack F @ [([], [])]\<rparr> else F"
  from assms have a: "Filter_add tok ?F = Some F1" by (simp add: Filter_start_def)
  have "concat (map fst (f_stack ?F)) = concat (map fst (f_stack F))" by simp
  with Filter_add_raw[OF a]
  show "concat (map fst (f_stack F1)) = concat (map fst (f_stack F)) @ getRawValue tok" by simp
  from Filter_add_props[OF a] show "f_scope F1 = f_scope F" by (simp split: if_splits)
qed

lemma Filter_flush_raw:
  assumes "Filter_flush F = Some F1" and "\<not> f_redact F1"
  shows "concat (map fst (f_stack F1)) = concat (map fst (f_stack F))"
    and "f_trim F1 = f_trim F" and "f_scope F1 = f_scope F"
proof -
  from assms(1) have ne: "f_stack F \<noteq> []" by (auto simp: Filter_flush_def split: if_splits)
  from assms have nomatch: "\<not> regex_search (f_regex F) (snd (last (f_stack F)))"
    by (auto simp: Filter_flush_def Let_def split: if_splits)
  with assms(1) ne have pne: "butlast (f_stack F) \<noteq> []"
    by (auto simp: Filter_flush_def Let_def split: if_splits)
  from assms(1) ne nomatch pne have
    st: "f_stack F1 = butlast (butlast (f_stack F)) @
        [(fst (last (butlast (f_stack F))) @ fst (last (f_stack F)),
          snd (last (butlast (f_stack F))) @ snd (last (f_stack F)))]"
    and t: "f_trim F1 = f_trim F" and s: "f_scope F1 = f_scope F"
    by (auto simp: Filter_flush_def Let_def)
  show "concat (map fst (f_stack F1)) = concat (map fst (f_stack F))"
    using st concat_fst_butlast[OF ne] concat_fst_butlast[OF pne] by simp
  from t s show "f_trim F1 = f_trim F" and "f_scope F1 = f_scope F" .
qed

lemma Filter_end_raw:
  assumes "Filter_end sc tok F = Some F1" and "\<not> f_redact F1"
  shows "concat (map fst (f_stack F1)) = concat (map fst (f_stack F)) @ getRawValue tok"
    and "\<not> f_trim F1" and "f_scope F1 = f_scope F"
proof -
  from assms(1) obtain F0 where a: "Filter_add tok F = Some F0"
    by (auto simp: Filter_end_def split: option.splits)
  note p = Filter_add_props[OF a] and r = Filter_add_raw[OF a]
  have "concat (map fst (f_stack F1)) = concat (map fst (f_stack F)) @ getRawValue tok
      \<and> \<not> f_trim F1 \<and> f_scope F1 = f_scope F"
  proof (cases "f_scope F0 = sc \<and> length (f_stack F0) > 1")
    case True
    with assms(1) a have "Filter_flush F0 = Some F1" by (simp add: Filter_end_def)
    from Filter_flush_raw[OF this assms(2)] p r show ?thesis by simp
  next
    case False
    with assms(1) a have "F1 = F0" by (auto simp: Filter_end_def)
    with p r show ?thesis by simp
  qed
  then show "concat (map fst (f_stack F1)) = concat (map fst (f_stack F)) @ getRawValue tok"
    and "\<not> f_trim F1" and "f_scope F1 = f_scope F" by simp_all
qed

lemma handleToken_raw:
  assumes "handleToken Q tok F = Some F1" and "\<not> f_redact F1"
    and "f_scope F \<noteq> s_match" and "\<not> f_trim F"
  shows "concat (map fst (f_stack F1)) = concat (map fst (f_stack F)) @ getRawValue tok
     \<and> \<not> f_trim F1 \<and> f_scope F1 = f_scope F"
proof -
  have start: "Filter_start sc tok F = Some F1 \<Longrightarrow> ?thesis" for sc
    using Filter_start_raw[of sc tok F F1] Filter_start_flags(2)[of sc tok F F1] by simp
  have end': "Filter_end sc tok F = Some F1 \<Longrightarrow> ?thesis" for sc
    using Filter_end_raw[of sc tok F F1] assms(2) by simp
  show ?thesis
  proof (cases "getType tok")
    case tt_word
    with assms(1) have "(\<exists>sc. Filter_start sc tok F = Some F1)
        \<or> (\<exists>sc. Filter_end sc tok F = Some F1)"
      by (auto simp: handleToken_def Let_def split: if_splits)
    then show ?thesis using start end' by blast
  next
    case tt_space
    with assms(1,4) obtain F0 where
      a: "Filter_add tok F = Some F0" and e: "F1 = F0\<lparr>f_trim := False\<rparr>"
      by (auto simp: handleToken_def Let_def split: option.splits)
    from Filter_add_raw[OF a] Filter_add_props[OF a] e show ?thesis by simp
  next
    case tt_string
    with assms(1,3) have "Filter_start s_operator tok F = Some F1"
      by (simp add: handleToken_def Let_def)
    then show ?thesis by (rule start)
  qed (use assms(1) start[of s_operator] in \<open>auto simp: handleToken_def Let_def\<close>)
qed

lemma handleTokens_raw:
  assumes "handleTokens Q toks F = Some F1" and "\<not> f_redact F1"
    and "f_scope F \<noteq> s_match" and "\<not> f_trim F"
  shows "concat (map fst (f_stack F1))
         = concat (map fst (f_stack F)) @ concat (map getRawValue toks)
     \<and> \<not> f_trim F1 \<and> f_scope F1 = f_scope F"
  using assms
proof (induction toks arbitrary: F)
  case Nil
  then show ?case by simp
next
  case (Cons tok toks)
  from Cons.prems(1) obtain F0 where
    h: "handleToken Q tok F = Some F0" "handleTokens Q toks F0 = Some F1"
    by (auto split: option.splits)
  from handleTokens_redact[OF h(2)] Cons.prems(2) have n0: "\<not> f_redact F0" by simp
  from handleToken_raw[OF h(1) n0 Cons.prems(3,4)] have
    k: "concat (map fst (f_stack F0)) = concat (map fst (f_stack F)) @ getRawValue tok"
       "\<not> f_trim F0" "f_scope F0 = f_scope F" by simp_all
  from k(3) Cons.prems(3) have "f_scope F0 \<noteq> s_match" by simp
  from Cons.IH[OF h(2) Cons.prems(2) this k(2)] k show ?case by simp
qed

lemma handleEOF_raw:
  assumes "handleEOF F = Some F1" and "\<not> f_redact F1"
  shows "concat (map fst (f_stack F1)) = concat (map fst (f_stack F))"
  using assms
proof (induction F rule: handleEOF.induct)
  case (1 F)
  show ?case
  proof (cases "length (f_stack F) > 1")
    case True
    with "1.prems"(1) obtain F0 where
      f: "Filter_flush F = Some F0" "handleEOF F0 = Some F1"
      by (subst (asm) handleEOF.simps) (auto split: option.splits)
    from handleEOF_redact[OF f(2)] "1.prems"(2) have n0: "\<not> f_redact F0" by simp
    from "1.IH"[OF True f(1) f(2) "1.prems"(2)] Filter_flush_raw(1)[OF f(1) n0]
    show ?thesis by simp
  next
    case False
    with "1.prems"(1) have "F1 = F" by (subst (asm) handleEOF.simps) simp
    then show ?thesis by simp
  qed
qed

text \<open>
  At a scope other than match, a run whose verdict is negative has discarded nothing, and
  its output \<open>data()\<close> is the concatenation of the raw bytes of the tokens: skipping
  \<open>replaceStreamData\<close> then loses nothing when the tokenizer is lossless. At match scope
  this fails (Scenario A).
\<close>

lemma negative_verdict_output:
  assumes "run_filter Q toks (Filter_new rx sc) = Some F" and "redact F = Some False"
    and "sc \<noteq> s_match"
  shows "data F = Some (concat (map getRawValue toks))"
proof -
  let ?F0 = "Filter_new rx sc"
  from assms(1) obtain F1 where
    h: "handleTokens Q toks ?F0 = Some F1" "handleEOF F1 = Some F"
    by (auto simp: run_filter_def split: option.splits)
  from assms(2) have n: "\<not> f_redact F" by (auto simp: redact_def split: if_splits)
  from handleEOF_redact[OF h(2)] n have n1: "\<not> f_redact F1" by simp
  have "f_scope ?F0 \<noteq> s_match" "\<not> f_trim ?F0" using assms(3) by (simp_all add: Filter_new_def)
  from handleTokens_raw[OF h(1) n1 this] have
    "concat (map fst (f_stack F1)) = concat (map getRawValue toks)"
    by (simp add: Filter_new_def)
  with handleEOF_raw[OF h(2) n] have
    c: "concat (map fst (f_stack F)) = concat (map getRawValue toks)" by simp
  have ne: "f_stack ?F0 \<noteq> []" by (simp add: Filter_new_def)
  from run_filter_Some[OF ne, of Q toks] assms(1) have "length (f_stack F) = 1" by auto
  then obtain root where st: "f_stack F = [root]" by (cases "f_stack F") auto
  with c show ?thesis by (simp add: data_def)
qed

section \<open>Wider scopes\<close>












lemma content_loop_single:
  assumes "regex args = Some pattern"
    and "run_filter Q (tokenize Q (streamData (doc obj)))
           (Filter_new (regex_compile Q pattern) (scope args)) = Some F"
    and "redact F = Some b"
  shows "content_loop Q args [obj] contents doc =
     (if b then (case scope args of
                   s_page \<Rightarrow> bailed doc
                 | s_stream \<Rightarrow> completed contents doc
                 | _ \<Rightarrow> (case data F of
                           None \<Rightarrow> crashed
                         | Some d \<Rightarrow> completed (contents @ [obj]) (replaceStreamData obj d doc)))
      else completed (contents @ [obj]) doc)"
  using assms
  by (cases "scope args") (auto simp: filterAsContents_def split: option.splits)

section \<open>The matcher of a pattern without metacharacters\<close>









lemma replaceStreamData_changes:
  assumes "streamData (doc obj) \<noteq> d"
  shows "replaceStreamData obj d doc \<noteq> doc"
proof
  assume "replaceStreamData obj d doc = doc"
  then have "streamData (replaceStreamData obj d doc obj) = streamData (doc obj)" by simp
  with assms show False by (simp add: replaceStreamData_def)
qed


section \<open>Termination of the descent into form XObjects\<close>

lemma replaceStreamData_forms:
  "getFormXObjects (replaceStreamData obj d doc i) = getFormXObjects (doc i)"
  by (simp add: replaceStreamData_def)

lemma setContents_forms:
  "getFormXObjects (setContents obj c doc i) = getFormXObjects (doc i)"
  by (simp add: setContents_def)

lemma content_loop_forms:
  assumes "content_loop Q args objs contents doc = bailed d
         \<or> content_loop Q args objs contents doc = completed c d"
  shows "getFormXObjects (d i) = getFormXObjects (doc i)"
  using assms
proof (induction objs arbitrary: contents doc)
  case Nil
  then show ?case by simp
next
  case (Cons obj objs)
  note res = Cons.prems
  show ?case
  proof (cases "regex args")
    case None
    with res show ?thesis by simp
  next
    case (Some pattern)
    show ?thesis
    proof (cases "filterAsContents Q doc obj (Filter_new (regex_compile Q pattern) (scope args))")
      case None
      with res Some show ?thesis by simp
    next
      case flt: (Some flt)
      show ?thesis
      proof (cases "redact flt")
        case None
        with res Some flt show ?thesis by simp
      next
        case v: (Some b)
        show ?thesis
        proof (cases b)
          case False
          with res Some flt v have
            "content_loop Q args objs (contents @ [obj]) doc = bailed d
             \<or> content_loop Q args objs (contents @ [obj]) doc = completed c d" by simp
          then show ?thesis by (rule Cons.IH)
        next
          case True
          show ?thesis
          proof (cases "scope args = s_page")
            case True
            with res Some flt v \<open>b\<close> show ?thesis by simp
          next
            case np: False
            show ?thesis
            proof (cases "scope args = s_stream")
              case True
              with res Some flt v \<open>b\<close> have
                "content_loop Q args objs contents doc = bailed d
                 \<or> content_loop Q args objs contents doc = completed c d" by simp
              then show ?thesis by (rule Cons.IH)
            next
              case ns: False
              show ?thesis
              proof (cases "data flt")
                case None
                with res Some flt v \<open>b\<close> np ns show ?thesis
                  by (cases "scope args") simp_all
              next
                case d: (Some dd)
                from res Some flt v \<open>b\<close> np ns d have
                  "content_loop Q args objs (contents @ [obj]) (replaceStreamData obj dd doc)
                     = bailed d
                   \<or> content_loop Q args objs (contents @ [obj]) (replaceStreamData obj dd doc)
                     = completed c d"
                  by (cases "scope args") simp_all
                then have "getFormXObjects (d i)
                    = getFormXObjects (replaceStreamData obj dd doc i)" by (rule Cons.IH)
                then show ?thesis by (simp add: replaceStreamData_forms)
              qed
            qed
          qed
        qed
      qed
    qed
  qed
qed

lemma redactPage_calls_terminates:
  assumes desc: "\<forall>i. \<forall>j \<in> set (getFormXObjects (doc0 i)). (rank j :: nat) < rank i"
    and same: "\<forall>i. getFormXObjects (doc i) = getFormXObjects (doc0 i)"
  shows "\<exists>r. redactPage_calls Q args (RedactPage page) doc = Some r
      \<and> (\<forall>b d. r = return b d \<longrightarrow> (\<forall>i. getFormXObjects (d i) = getFormXObjects (doc0 i)))"
  using same
proof (induction "rank page" arbitrary: page doc rule: less_induct)
  case less
  have loop: "\<exists>r. redactPage_calls Q args (FormLoop forms) doc1 = Some r
      \<and> (\<forall>b d. r = return b d \<longrightarrow> (\<forall>i. getFormXObjects (d i) = getFormXObjects (doc0 i)))"
    if "set forms \<subseteq> set (getFormXObjects (doc0 page))"
      and "\<forall>i. getFormXObjects (doc1 i) = getFormXObjects (doc0 i)" for forms doc1
    using that
  proof (induction forms arbitrary: doc1)
    case Nil
    then show ?case by (simp add: redactPage_calls_nil)
  next
    case (Cons form forms)
    from Cons.prems(1) desc have "rank form < rank page" by auto
    from less.hyps[OF this Cons.prems(2)] obtain r where
      r: "redactPage_calls Q args (RedactPage form) doc1 = Some r"
         "\<forall>b d. r = return b d \<longrightarrow> (\<forall>i. getFormXObjects (d i) = getFormXObjects (doc0 i))"
      by blast
    show ?case
    proof (cases r)
      case crash
      with r show ?thesis by (simp add: redactPage_calls_cons)
    next
      case (return b d)
      with r(2) have sd: "\<forall>i. getFormXObjects (d i) = getFormXObjects (doc0 i)" by simp
      show ?thesis
      proof (cases b)
        case True
        with return r(1) sd show ?thesis by (simp add: redactPage_calls_cons)
      next
        case False
        from Cons.prems(1) have "set forms \<subseteq> set (getFormXObjects (doc0 page))" by simp
        from Cons.IH[OF this sd] False return r(1) show ?thesis
          by (simp add: redactPage_calls_cons)
      qed
    qed
  qed
  show ?case
  proof (cases "content_loop Q args (getContents doc page) [] doc")
    case crashed
    then show ?thesis by (simp add: redactPage_calls_page)
  next
    case (bailed d)
    with content_loop_forms[of Q args "getContents doc page" "[]" doc d] less.prems
    show ?thesis by (simp add: redactPage_calls_page)
  next
    case (completed c d)
    with content_loop_forms[of Q args "getContents doc page" "[]" doc d c] less.prems
    have sd: "\<forall>i. getFormXObjects (setContents page c d i) = getFormXObjects (doc0 i)"
      by (simp add: setContents_forms)
    then have "set (getFormXObjects (setContents page c d page))
        \<subseteq> set (getFormXObjects (doc0 page))" by simp
    from loop[OF this sd] completed show ?thesis by (simp add: redactPage_calls_page)
  qed
qed

text \<open>
  C6 (as the code has it): when the form XObjects of the document descend (some rank
  decreases along every reference from an object to a form XObject of its resources,
  which excludes cycles and allows repeated references), every call of \<open>redactPage\<close>
  returns.
\<close>

theorem redactPage_returns_without_cycles:
  assumes "\<forall>i. \<forall>j \<in> set (getFormXObjects (doc i)). (rank j :: nat) < rank i"
  shows "\<exists>r. redactPage Q args page doc = Some r"
  using redactPage_calls_terminates[OF assms, of doc Q args page]
  by (auto simp: redactPage_def)

lemma nested_form_page_descends:
  "\<forall>i. \<forall>j \<in> set (getFormXObjects (nested_form_page i)). nested_form_rank j < nested_form_rank i"
  by (auto simp: nested_form_page_def nested_form_rank_def split: if_splits)

theorem redactPage_returns_without_cycles_witness:
  "getFormXObjects (nested_form_page 3) = [5] \<and> getFormXObjects (nested_form_page 5) = [6]
   \<and> getFormXObjects (nested_form_page 6) = []
   \<and> nested_form_rank 5 < nested_form_rank 3 \<and> nested_form_rank 6 < nested_form_rank 5
   \<and> (\<exists>r. redactPage simple_qpdf (example_args s_operator) 3 nested_form_page = Some r)"
  using redactPage_returns_without_cycles[OF nested_form_page_descends,
      of simple_qpdf "example_args s_operator" 3]
  by (simp add: nested_form_page_def nested_form_rank_def)

lemma tokenize_cyclic:
  "tokenize simple_qpdf ''(hello) Tj'' = [mk_string ''hello'', mk_space '' '', mk_word ''Tj'']"
  "tokenize simple_qpdf ''(form) Tj'' = [mk_string ''form'', mk_space '' '', mk_word ''Tj'']"
  by (simp_all add: lex_simps)

lemma cyclic_form_page_simps:
  "getContents cyclic_form_page 3 = [4]"
  "getContents cyclic_form_page 5 = [5]"
  "streamData (cyclic_form_page 4) = ''(hello) Tj''"
  "streamData (cyclic_form_page 5) = ''(form) Tj''"
  "getFormXObjects (cyclic_form_page 3) = [5]"
  "getFormXObjects (cyclic_form_page 5) = [5]"
  by (simp_all add: cyclic_form_page_def getContents_def getPageContents_def)

lemma setContents_cyclic:
  "setContents 3 [4] cyclic_form_page = cyclic_form_page"
  "setContents 5 [5] cyclic_form_page = cyclic_form_page"
  by (rule ext, simp add: setContents_def cyclic_form_page_def)+

lemma content_loop_cyclic:
  "content_loop simple_qpdf (example_args s_match) [4] [] cyclic_form_page
     = completed [4] cyclic_form_page"
  "content_loop simple_qpdf (example_args s_match) [5] [] cyclic_form_page
     = completed [5] cyclic_form_page"
  by (simp_all add: example_args_simps filterAsContents_def cyclic_form_page_simps
      tokenize_cyclic simple_qpdf_simps(1) filter_simps token_simps)

lemma cyclic_calls:
  "redactPage_calls simple_qpdf (example_args s_match) (RedactPage 3) cyclic_form_page
     = redactPage_calls simple_qpdf (example_args s_match) (FormLoop [5]) cyclic_form_page"
  "redactPage_calls simple_qpdf (example_args s_match) (RedactPage 5) cyclic_form_page
     = redactPage_calls simple_qpdf (example_args s_match) (FormLoop [5]) cyclic_form_page"
  by (simp_all add: redactPage_calls_page cyclic_form_page_simps content_loop_cyclic
      setContents_cyclic del: content_loop.simps)

lemma cyclic_no_result:
  assumes "redactPage_calls Q a c d = Some y"
  shows "\<not> (Q = simple_qpdf \<and> a = example_args s_match \<and> d = cyclic_form_page
            \<and> (c = RedactPage 5 \<or> c = FormLoop [5]))"
proof (rule redactPage_calls.raw_induct[where P = "\<lambda>Q a c d y.
    \<not> (Q = simple_qpdf \<and> a = example_args s_match \<and> d = cyclic_form_page
        \<and> (c = RedactPage 5 \<or> c = FormLoop [5]))", OF _ assms])
  fix f :: "qpdf \<Rightarrow> args_t \<Rightarrow> call \<Rightarrow> pdf \<Rightarrow> result option"
  fix Q a c d y
  assume IH: "\<And>Q a c d y. f Q a c d = Some y \<Longrightarrow>
      \<not> (Q = simple_qpdf \<and> a = example_args s_match \<and> d = cyclic_form_page
        \<and> (c = RedactPage 5 \<or> c = FormLoop [5]))"
  assume body: "(case c of
        RedactPage page \<Rightarrow>
          (case content_loop Q a (getContents d page) [] d of
             crashed \<Rightarrow> Some crash
           | bailed doc1 \<Rightarrow> Some (return True doc1)
           | completed contents doc1 \<Rightarrow>
               f Q a (FormLoop (getFormXObjects (setContents page contents doc1 page)))
                 (setContents page contents doc1))
      | FormLoop [] \<Rightarrow> Some (return False d)
      | FormLoop (form # forms) \<Rightarrow>
          Option.bind (f Q a (RedactPage form) d)
            (\<lambda>r. case r of
                   crash \<Rightarrow> Some crash
                 | return b doc1 \<Rightarrow>
                     if b then Some (return True doc1)
                     else f Q a (FormLoop forms) doc1)) = Some y"
  show "\<not> (Q = simple_qpdf \<and> a = example_args s_match \<and> d = cyclic_form_page
        \<and> (c = RedactPage 5 \<or> c = FormLoop [5]))"
  proof
    assume h: "Q = simple_qpdf \<and> a = example_args s_match \<and> d = cyclic_form_page
            \<and> (c = RedactPage 5 \<or> c = FormLoop [5])"
    then consider "c = RedactPage 5" | "c = FormLoop [5]" by blast
    then show False
    proof cases
      case 1
      with h body have "f simple_qpdf (example_args s_match) (FormLoop [5]) cyclic_form_page
          = Some y"
        by (simp add: cyclic_form_page_simps content_loop_cyclic setContents_cyclic
            del: content_loop.simps)
      from IH[OF this] show False by simp
    next
      case 2
      with h body obtain r where
        "f simple_qpdf (example_args s_match) (RedactPage 5) cyclic_form_page = Some r"
        by (auto simp: bind_eq_Some_conv)
      from IH[OF this] show False by simp
    qed
  qed
qed

text \<open>
  The claim as stated fails: \<open>redactPage\<close> keeps no set of visited objects, and on the page
  whose form XObject 5 names itself in its resources the call does not return.
\<close>

theorem cyclic_form_counterexample:
  "getFormXObjects (cyclic_form_page 5) = [5]
   \<and> redactPage simple_qpdf (example_args s_match) 3 cyclic_form_page = None"
proof -
  have "redactPage_calls simple_qpdf (example_args s_match) (FormLoop [5]) cyclic_form_page
      = None"
  proof (cases "redactPage_calls simple_qpdf (example_args s_match) (FormLoop [5])
      cyclic_form_page")
    case None
    then show ?thesis .
  next
    case (Some y)
    from cyclic_no_result[OF this] show ?thesis by simp
  qed
  then show ?thesis
    by (simp add: redactPage_def cyclic_calls cyclic_form_page_simps)
qed

section \<open>Argument parsing\<close>

lemma known_flag_cast:
  assumes "c \<in> set SCOPE_FLAGS"
  shows "\<exists>k. find_char SCOPE_FLAGS c = Some k \<and> scope_cast k = Some (flag_scope c)"
  using assms by (auto simp: SCOPE_FLAGS_def scope_cast_def flag_scope_def)

lemma args_scope_commute:
  "args\<lparr>regex := r, scope := s\<rparr> = args\<lparr>scope := s, regex := r\<rparr>"
  "args\<lparr>infile := i, scope := s\<rparr> = args\<lparr>scope := s, infile := i\<rparr>"
  "args\<lparr>outfile := out, scope := s\<rparr> = args\<lparr>scope := s, outfile := out\<rparr>"
  by (cases args; simp)+

lemma parseArgs_loop_flags_first:
  assumes "\<forall>a \<in> set rest. take 1 a = ''-'' \<longrightarrow> char_at_1 a \<in> set SCOPE_FLAGS"
  shows "parseArgs_loop nd rest args =
     parseArgs_loop nd (filter (\<lambda>a. take 1 a \<noteq> ''-'') rest)
       (args\<lparr>scope := final_scope rest (scope args)\<rparr>)"
  using assms
proof (induction rest arbitrary: args)
  case Nil
  then show ?case by simp
next
  case (Cons a rest)
  from Cons.prems have rest: "\<forall>a \<in> set rest. take 1 a = ''-'' \<longrightarrow> char_at_1 a \<in> set SCOPE_FLAGS"
    by simp
  show ?case
  proof (cases "take 1 a = ''-''")
    case True
    with Cons.prems have "char_at_1 a \<in> set SCOPE_FLAGS" by simp
    from known_flag_cast[OF this] obtain k where
      k: "find_char SCOPE_FLAGS (char_at_1 a) = Some k" "scope_cast k = Some (flag_scope (char_at_1 a))"
      by blast
    from True k have "parseArgs_loop nd (a # rest) args
        = parseArgs_loop nd rest (args\<lparr>scope := flag_scope (char_at_1 a)\<rparr>)" by simp
    also have "\<dots> = parseArgs_loop nd (filter (\<lambda>a. take 1 a \<noteq> ''-'') rest)
        (args\<lparr>scope := final_scope rest (flag_scope (char_at_1 a))\<rparr>)"
      using Cons.IH[OF rest, of "args\<lparr>scope := flag_scope (char_at_1 a)\<rparr>"] by simp
    finally show ?thesis using True by simp
  next
    case False
    note IH = Cons.IH[OF rest]
    show ?thesis
    proof (cases "regex args")
      case None
      with False IH[of "args\<lparr>regex := Some a\<rparr>"] show ?thesis
        by (simp add: args_scope_commute)
    next
      case r: (Some r)
      show ?thesis
      proof (cases "infile args")
        case None
        with False r IH[of "args\<lparr>infile := Some a\<rparr>"] show ?thesis
          by (simp add: args_scope_commute)
      next
        case i: (Some i)
        show ?thesis
        proof (cases "outfile args")
          case None
          with False r i IH[of "args\<lparr>outfile := Some a\<rparr>"] show ?thesis
            by (simp add: args_scope_commute)
        next
          case (Some out)
          with False r i show ?thesis by simp
        qed
      qed
    qed
  qed
qed

lemma final_scope_last:
  "final_scope rest s =
     (if filter (\<lambda>a. take 1 a = ''-'') rest = [] then s
      else flag_scope (char_at_1 (last (filter (\<lambda>a. take 1 a = ''-'') rest))))"
  by (induction rest arbitrary: s) auto

lemma parseArgs_loop_positional:
  assumes "\<forall>a \<in> set ps. take 1 a \<noteq> ''-''"
    and "regex args = None" and "infile args = None" and "outfile args = None"
  shows "parseArgs_loop nd ps args =
     (if length ps \<le> 3
      then Inr (args\<lparr>regex := (if 0 < length ps then Some (ps ! 0) else None),
                    infile := (if 1 < length ps then Some (ps ! 1) else None),
                    outfile := (if 2 < length ps then Some (ps ! 2) else None)\<rparr>)
      else Inl usage)"
proof (cases ps)
  case Nil
  with assms show ?thesis by simp
next
  case p1: (Cons a ps1)
  show ?thesis
  proof (cases ps1)
    case Nil
    with p1 assms show ?thesis by simp
  next
    case p2: (Cons b ps2)
    show ?thesis
    proof (cases ps2)
      case Nil
      with p1 p2 assms show ?thesis by simp
    next
      case p3: (Cons c ps3)
      show ?thesis
      proof (cases ps3)
        case Nil
        with p1 p2 p3 assms show ?thesis by simp
      next
        case (Cons d ps4)
        with p1 p2 p3 assms show ?thesis by simp
      qed
    qed
  qed
qed

text \<open>
  C10: when a known flag letter follows the \<open>-\<close> of every argument that begins with \<open>-\<close>,
  \<open>parseArgs\<close> accepts any number of such arguments: the result depends on them only
  through the scope, which is the scope of the last one (\<open>s_match\<close> when there is none),
  and the usage error is raised exactly when the other arguments are not two or three.
\<close>

theorem parseArgs_last_flag_wins:
  assumes "\<forall>a \<in> set rest. take 1 a = ''-'' \<longrightarrow> char_at_1 a \<in> set SCOPE_FLAGS"
  shows "parseArgs gw nd (argv0 # rest) =
     (let ps = filter (\<lambda>a. take 1 a \<noteq> ''-'') rest;
          fs = filter (\<lambda>a. take 1 a = ''-'') rest
      in if length ps = 2 \<or> length ps = 3
         then Inr \<lparr>whoami = gw argv0, regex = Some (ps ! 0), infile = Some (ps ! 1),
                   outfile = (if length ps = 3 then Some (ps ! 2) else None),
                   scope = (if fs = [] then s_match else flag_scope (char_at_1 (last fs)))\<rparr>
         else Inl usage)"
proof -
  let ?args0 = "\<lparr>whoami = gw argv0, regex = None, infile = None, outfile = None,
                 scope = s_match\<rparr>"
  let ?ps = "filter (\<lambda>a. take 1 a \<noteq> ''-'') rest"
  let ?fs = "filter (\<lambda>a. take 1 a = ''-'') rest"
  let ?sc = "if ?fs = [] then s_match else flag_scope (char_at_1 (last ?fs))"
  have 1: "parseArgs_loop nd rest ?args0 = parseArgs_loop nd ?ps (?args0\<lparr>scope := ?sc\<rparr>)"
    using parseArgs_loop_flags_first[OF assms, of nd ?args0]
    by (simp only: final_scope_last) simp
  have pos: "\<forall>a \<in> set ?ps. take 1 a \<noteq> ''-''" by simp
  have 2: "parseArgs_loop nd ?ps (?args0\<lparr>scope := ?sc\<rparr>) =
     (if length ?ps \<le> 3
      then Inr (?args0\<lparr>scope := ?sc,
                    regex := (if 0 < length ?ps then Some (?ps ! 0) else None),
                    infile := (if 1 < length ?ps then Some (?ps ! 1) else None),
                    outfile := (if 2 < length ?ps then Some (?ps ! 2) else None)\<rparr>)
      else Inl usage)"
    by (rule parseArgs_loop_positional[OF pos]) simp_all
  note loop = trans[OF 1 2]
  have "parseArgs gw nd (argv0 # rest) =
      (case (if length ?ps \<le> 3
             then Inr (?args0\<lparr>scope := ?sc,
                    regex := (if 0 < length ?ps then Some (?ps ! 0) else None),
                    infile := (if 1 < length ?ps then Some (?ps ! 1) else None),
                    outfile := (if 2 < length ?ps then Some (?ps ! 2) else None)\<rparr>)
             else Inl usage) of
         Inl e \<Rightarrow> Inl e
       | Inr args \<Rightarrow> if regex args = None \<or> infile args = None then Inl usage else Inr args)"
    by (simp only: parseArgs_def list.case loop)
  also have "\<dots> =
     (if length ?ps = 2 \<or> length ?ps = 3
      then Inr \<lparr>whoami = gw argv0, regex = Some (?ps ! 0), infile = Some (?ps ! 1),
                outfile = (if length ?ps = 3 then Some (?ps ! 2) else None), scope = ?sc\<rparr>
      else Inl usage)"
  proof -
    consider "length ?ps = 0" | "length ?ps = 1" | "length ?ps = 2" | "length ?ps = 3"
      | "length ?ps > 3" by linarith
    then show ?thesis by cases simp_all
  qed
  finally show ?thesis by (simp only: Let_def)
qed

theorem parseArgs_last_flag_wins_witness:
  "char_at_1 ''-o'' \<in> set SCOPE_FLAGS \<and> char_at_1 ''-t'' \<in> set SCOPE_FLAGS
   \<and> char_at_1 ''-p'' \<in> set SCOPE_FLAGS
   \<and> parseArgs (\<lambda>s. s) False [''redact-pdf'', ''-o'', ''secret'', ''-t'', ''in.pdf'', ''-p'']
       = Inr \<lparr>whoami = ''redact-pdf'', regex = Some ''secret'', infile = Some ''in.pdf'',
               outfile = None, scope = s_page\<rparr>"
proof -
  have h: "\<forall>a \<in> set [''-o'', ''secret'', ''-t'', ''in.pdf'', ''-p''].
      take 1 a = ''-'' \<longrightarrow> char_at_1 a \<in> set SCOPE_FLAGS"
    by (simp add: char_at_1_def SCOPE_FLAGS_def)
  from parseArgs_last_flag_wins[OF h, of "\<lambda>s. s" False "''redact-pdf''"]
  show ?thesis
    by (simp add: flag_scope_def char_at_1_def SCOPE_FLAGS_def Let_def)
qed

section \<open>In-place replacement\<close>

lemma tilde_differs: "inpath @ ''~'' \<noteq> inpath"
  by simp

text \<open>
  C7 (as the code has it): in a run without output path, with the arguments parsed. If the
  input file cannot be read or processed, the run exits with status 2 and the files are as
  they were. If the pages were processed, the result is the serialized document after
  \<open>removeUnreferencedResources\<close>, the temporary path is \<open>infile~\<close>, and the run ends in
  exactly one of these ways: the write cannot open the temporary file (status 2, files as
  they were); the write fails after \<open>n\<close> bytes (status 2, the input file as it was, the first
  \<open>n\<close> bytes of the result at the temporary path); the removal of the input fails (status
  2, the input file as it was, the whole result at the temporary path); the rename fails
  after the removal (status 2, no file at the input path, the whole result at the
  temporary path); or the run succeeds (status 0, the result at the input path, no file at
  the temporary path). No other path is changed.
\<close>

theorem in_place_replacement:
  assumes "parseArgs (getWhoami L) nd argv = Inr args"
    and "infile args = Some inpath" and "outfile args = None"
  shows "(Option.bind (fs inpath) (processFile L) = None \<longrightarrow>
            main Q L env nd argv fs = Some (exited 2 fs))
     \<and> (Option.bind (fs inpath) (processFile L) = Some D
          \<and> page_loop Q args (getAllPages D) D = Some (pages_done D1) \<longrightarrow>
            main Q L env nd argv fs
              = Some (let result = serialize L (removeUnreferencedResources L D1);
                          tmp = inpath @ ''~''
                      in case write_outcome env of
                           open_failed \<Rightarrow> exited 2 fs
                         | failed_after n \<Rightarrow> exited 2 (fs(tmp \<mapsto> take n result))
                         | written \<Rightarrow>
                             if remove_fails env then exited 2 (fs(tmp \<mapsto> result))
                             else if rename_fails env
                               then exited 2 (fs(tmp \<mapsto> result, inpath := None))
                               else exited 0 (fs(tmp := None, inpath \<mapsto> result))))"
proof (intro conjI impI)
  assume "Option.bind (fs inpath) (processFile L) = None"
  with assms show "main Q L env nd argv fs = Some (exited 2 fs)"
    by (simp add: main_def)
next
  assume h: "Option.bind (fs inpath) (processFile L) = Some D
    \<and> page_loop Q args (getAllPages D) D = Some (pages_done D1)"
  from h obtain input where i: "fs inpath = Some input"
    by (cases "fs inpath") simp_all
  have e: "\<And>r. (fs(inpath @ ''~'' \<mapsto> r, inpath := None))(inpath \<mapsto> r, inpath @ ''~'' := None)
      = fs(inpath @ ''~'' := None, inpath \<mapsto> r)"
    by (auto simp: fun_eq_iff)
  show "main Q L env nd argv fs
      = Some (let result = serialize L (removeUnreferencedResources L D1);
                  tmp = inpath @ ''~''
              in case write_outcome env of
                   open_failed \<Rightarrow> exited 2 fs
                 | failed_after n \<Rightarrow> exited 2 (fs(tmp \<mapsto> take n result))
                 | written \<Rightarrow>
                     if remove_fails env then exited 2 (fs(tmp \<mapsto> result))
                     else if rename_fails env
                       then exited 2 (fs(tmp \<mapsto> result, inpath := None))
                       else exited 0 (fs(tmp := None, inpath \<mapsto> result)))"
    using assms h i e
    by (cases "write_outcome env")
       (simp_all add: main_def Let_def writer_write_def remove_file_def rename_file_def)
qed

lemma parseArgs_example:
  "parseArgs (getWhoami toy_document) False [''redact-pdf'', ''secret'', ''in.pdf'']
     = Inr (example_args s_match)"
  by (simp add: parseArgs_def toy_document_def example_args_def)

lemma content_loop_hello_world:
  "content_loop simple_qpdf (example_args s_match) [4] [] (one_stream_page ''(hello world) Tj'')
     = completed [4] (one_stream_page ''(hello world) Tj'')"
  by (simp add: example_args_simps filterAsContents_def one_stream_page_simps
      tokenize_hello simple_qpdf_simps(1) filter_simps token_simps)

lemma page_loop_hello_world:
  "page_loop simple_qpdf (example_args s_match) [3]
      \<lparr>objects = one_stream_page ''(hello world) Tj'', getAllPages = [3]\<rparr>
     = Some (pages_done \<lparr>objects = one_stream_page ''(hello world) Tj'', getAllPages = [3]\<rparr>)"
  by (simp add: redactPage_def redactPage_calls_page one_stream_page_simps
      content_loop_hello_world setContents_one_stream_page redactPage_calls_nil
      del: content_loop.simps)

lemma main_example:
  "main simple_qpdf toy_document env False [''redact-pdf'', ''secret'', ''in.pdf''] in_place_files
     = (case writer_write (write_outcome env) ''in.pdf~'' ''(hello world) Tj'' in_place_files of
          Inl fs1 \<Rightarrow> Some (exited 2 fs1)
        | Inr fs1 \<Rightarrow>
            (case remove_file (remove_fails env) ''in.pdf'' fs1 of
               None \<Rightarrow> Some (exited 2 fs1)
             | Some fs2 \<Rightarrow>
                 (case rename_file (rename_fails env) ''in.pdf~'' ''in.pdf'' fs2 of
                    None \<Rightarrow> Some (exited 2 fs2)
                  | Some fs3 \<Rightarrow> Some (exited 0 fs3))))"
proof -
  have p: "processFile toy_document ''(hello world) Tj''
      = Some \<lparr>objects = one_stream_page ''(hello world) Tj'', getAllPages = [3]\<rparr>"
    by (simp add: toy_document_def)
  have s: "serialize toy_document (removeUnreferencedResources toy_document
      \<lparr>objects = one_stream_page ''(hello world) Tj'', getAllPages = [3]\<rparr>)
      = ''(hello world) Tj''"
    by (simp add: toy_document_def one_stream_page_simps)
  have f: "in_place_files ''in.pdf'' = Some ''(hello world) Tj''"
    by (simp add: in_place_files_def)
  show ?thesis
    unfolding main_def parseArgs_example
    by (simp add: example_args_simps f p s page_loop_hello_world Let_def
        del: page_loop.simps split: sum.splits option.splits)
qed

lemma parseArgs_example_operator:
  "parseArgs (getWhoami toy_document) False [''redact-pdf'', ''-o'', ''secret'', ''in.pdf'']
     = Inr (example_args s_operator)"
  by (simp add: parseArgs_def toy_document_def example_args_def SCOPE_FLAGS_def scope_cast_def
      char_at_1_def)

lemma tokenize_secret_hello:
  "tokenize simple_qpdf ''(secret) Tj (hello) Tj''
     = [mk_string ''secret'', mk_space '' '', mk_word ''Tj'', mk_space '' '',
        mk_string ''hello'', mk_space '' '', mk_word ''Tj'']"
  by (simp add: lex_simps)


lemma content_loop_secret_hello:
  "content_loop simple_qpdf (example_args s_operator) [4] []
      (one_stream_page ''(secret) Tj (hello) Tj'')
     = completed [4] (one_stream_page ''(hello) Tj'')"
  by (simp add: example_args_simps filterAsContents_def one_stream_page_simps
      tokenize_secret_hello simple_qpdf_simps(1) filter_simps token_simps
      replaceStreamData_one_stream_page)

lemma page_loop_secret_hello:
  "page_loop simple_qpdf (example_args s_operator) [3]
      \<lparr>objects = one_stream_page ''(secret) Tj (hello) Tj'', getAllPages = [3]\<rparr>
     = Some (pages_done \<lparr>objects = one_stream_page ''(hello) Tj'', getAllPages = [3]\<rparr>)"
  by (simp add: redactPage_def redactPage_calls_page one_stream_page_simps
      content_loop_secret_hello setContents_one_stream_page redactPage_calls_nil
      del: content_loop.simps)

theorem in_place_replacement_witness:
  "parseArgs (getWhoami toy_document) False [''redact-pdf'', ''-o'', ''secret'', ''in.pdf'']
      = Inr (example_args s_operator)
   \<and> infile (example_args s_operator) = Some ''in.pdf''
   \<and> outfile (example_args s_operator) = None
   \<and> in_place_secret_files ''in.pdf'' = Some ''(secret) Tj (hello) Tj''
   \<and> main simple_qpdf toy_document
        \<lparr>write_outcome = written, remove_fails = False, rename_fails = False\<rparr> False
        [''redact-pdf'', ''-o'', ''secret'', ''in.pdf''] in_place_secret_files
       = Some (exited 0 (in_place_secret_files(''in.pdf~'' := None, ''in.pdf'' \<mapsto> ''(hello) Tj'')))
   \<and> main simple_qpdf toy_document
        \<lparr>write_outcome = failed_after 3, remove_fails = False, rename_fails = False\<rparr> False
        [''redact-pdf'', ''-o'', ''secret'', ''in.pdf''] in_place_secret_files
       = Some (exited 2 (in_place_secret_files(''in.pdf~'' \<mapsto> ''(he'')))
   \<and> main simple_qpdf toy_document
        \<lparr>write_outcome = written, remove_fails = False, rename_fails = False\<rparr> False
        [''redact-pdf'', ''-o'', ''secret'', ''in.pdf''] (\<lambda>path. None)
       = Some (exited 2 (\<lambda>path. None))"
proof -
  note a = parseArgs_example_operator example_args_simps(4)[of s_operator]
    example_args_simps(3)[of s_operator]
  have f: "in_place_secret_files ''in.pdf'' = Some ''(secret) Tj (hello) Tj''"
    by (simp add: in_place_secret_files_def)
  have p: "Option.bind (in_place_secret_files ''in.pdf'') (processFile toy_document)
      = Some \<lparr>objects = one_stream_page ''(secret) Tj (hello) Tj'', getAllPages = [3]\<rparr>
    \<and> page_loop simple_qpdf (example_args s_operator)
        (getAllPages \<lparr>objects = one_stream_page ''(secret) Tj (hello) Tj'', getAllPages = [3]\<rparr>)
        \<lparr>objects = one_stream_page ''(secret) Tj (hello) Tj'', getAllPages = [3]\<rparr>
      = Some (pages_done \<lparr>objects = one_stream_page ''(hello) Tj'', getAllPages = [3]\<rparr>)"
    by (simp add: f toy_document_def page_loop_secret_hello del: page_loop.simps)
  have s: "serialize toy_document (removeUnreferencedResources toy_document
      \<lparr>objects = one_stream_page ''(hello) Tj'', getAllPages = [3]\<rparr>) = ''(hello) Tj''"
    by (simp add: toy_document_def one_stream_page_simps)
  have n: "Option.bind ((\<lambda>path. None) ''in.pdf'') (processFile toy_document) = None"
    by simp
  note i = in_place_replacement[where Q = simple_qpdf
      and D = "\<lparr>objects = one_stream_page ''(secret) Tj (hello) Tj'', getAllPages = [3]\<rparr>"
      and ?D1.0 = "\<lparr>objects = one_stream_page ''(hello) Tj'', getAllPages = [3]\<rparr>", OF a]
  note t = i[where fs = in_place_secret_files, THEN conjunct2, rule_format, OF p,
      unfolded s Let_def]
  note u = i[where fs = "\<lambda>path. None", THEN conjunct1, rule_format, OF n]
  from a f
    t[of "\<lparr>write_outcome = written, remove_fails = False, rename_fails = False\<rparr>"]
    t[of "\<lparr>write_outcome = failed_after 3, remove_fails = False, rename_fails = False\<rparr>"]
    u[of "\<lparr>write_outcome = written, remove_fails = False, rename_fails = False\<rparr>"]
  show ?thesis by simp
qed

text \<open>
  The claim as stated fails: in a run without output path in which the write and the
  removal of the input succeed and the rename fails, the program exits with status 2,
  no file is left at the input path, and the result is at \<open>in.pdf~\<close>.
\<close>

theorem in_place_counterexample:
  "in_place_files ''in.pdf'' = Some ''(hello world) Tj''
   \<and> main simple_qpdf toy_document
      \<lparr>write_outcome = written, remove_fails = False, rename_fails = True\<rparr> False
      [''redact-pdf'', ''secret'', ''in.pdf''] in_place_files
     = Some (exited 2 (in_place_files(''in.pdf~'' \<mapsto> ''(hello world) Tj'', ''in.pdf'' := None)))
   \<and> (in_place_files(''in.pdf~'' \<mapsto> ''(hello world) Tj'', ''in.pdf'' := None)) ''in.pdf'' = None"
  unfolding main_example
  by (simp add: writer_write_def remove_file_def rename_file_def in_place_files_def)

section \<open>A stream without a match among others\<close>







section \<open>Wider scopes remove more\<close>







lemma settled_skipped [simp]:
  "settled rx em (T\<lparr>t_skipped := x\<rparr>) = settled rx em T"
  by (simp add: settled_def)









































end
